theory Spec2Isabelle
  imports Complex_Main
begin

section \<open>Binomial option pricing: the pricing engine of app.js\<close>

text \<open>
  The engine of \<^verbatim>\<open>src/app.js\<close>: \<^verbatim>\<open>validateInputs\<close>, \<^verbatim>\<open>riskNeutralProb\<close>,
  \<^verbatim>\<open>binomialOptionPricing\<close>, \<^verbatim>\<open>priceWithConvergence\<close>, \<^verbatim>\<open>impliedVolatility\<close> and
  \<^verbatim>\<open>greeks\<close>.

  Numbers. A JavaScript number is an IEEE double. Here it is a \<^typ>\<open>real\<close>: every
  number is finite and the arithmetic is exact, so rounding, overflow, the infinities and
  NaN are outside the model. \<^verbatim>\<open>Math.exp\<close>, \<^verbatim>\<open>Math.sqrt\<close>, \<^verbatim>\<open>Math.max\<close> and
  \<^verbatim>\<open>Math.abs\<close> are \<^const>\<open>exp\<close>, \<^const>\<open>sqrt\<close>, \<^const>\<open>max\<close> and \<^const>\<open>abs\<close>. The only
  divisions whose divisor can be zero are those of \<^verbatim>\<open>greeks\<close>; they are modelled by
  \<open>js_div\<close> below, which has no finite value there.

  Errors. The source throws \<^verbatim>\<open>new Error(message)\<close> everywhere. The model keeps one
  constructor for each kind of error the specification names, told apart in the source by
  the message; \<open>InvalidParameter\<close> carries the message itself, which says which rule
  was violated.
\<close>

subsection \<open>Data\<close>

datatype error =
    InvalidParameter string
  | DegenerateTree
  | ArbitrageViolation real
  | InvalidTarget
  | NotBracketed

text \<open>
  The parameter object \<^verbatim>\<open>{ S, K, T, r, sigma, q, n, option_type, exercise_type }\<close>.
  The numeric fields carry the prefix \<open>p\<close> (a field called \<open>n\<close> or \<open>r\<close> would capture
  these letters in every later statement). The option kind and the exercise style are
  strings, as in the source: the validator decides which strings are accepted.
\<close>

record params =
  pS :: real
  pK :: real
  pT :: real
  pr :: real
  psigma :: real
  pq :: real
  pn :: real
  option_type :: string
  exercise_type :: string

subsection \<open>The validator\<close>

text \<open>\<^verbatim>\<open>Number.isInteger\<close> on a finite number.\<close>

definition isInteger :: "real \<Rightarrow> bool" where
  "isInteger x \<longleftrightarrow> of_int \<lfloor>x\<rfloor> = x"

text \<open>\<^verbatim>\<open>Array.prototype.includes\<close> on an array of strings.\<close>

definition array_includes :: "string list \<Rightarrow> string \<Rightarrow> bool" where
  "array_includes xs x \<longleftrightarrow> x \<in> set xs"

definition validateInputs :: "params \<Rightarrow> error + unit" where
  "validateInputs a =
     (if \<not> (pS a > 0 \<and> pK a > 0) then Inl (InvalidParameter ''S and K must be positive.'')
      else if \<not> (pT a > 0) then Inl (InvalidParameter ''T must be positive.'')
      else if \<not> (pn a > 0 \<and> isInteger (pn a))
        then Inl (InvalidParameter ''n must be a positive integer.'')
      else if psigma a < 0 then Inl (InvalidParameter ''sigma must be non-negative.'')
      else if pq a < 0 then Inl (InvalidParameter ''q must be non-negative.'')
      else if \<not> array_includes [''call'', ''put''] (option_type a)
        then Inl (InvalidParameter ''Option type invalid.'')
      else if \<not> array_includes [''european'', ''american''] (exercise_type a)
        then Inl (InvalidParameter ''Exercise type invalid.'')
      else Inr ())"

subsection \<open>The lattice pricer\<close>

definition riskNeutralProb :: "real \<Rightarrow> real \<Rightarrow> real \<Rightarrow> real \<Rightarrow> real \<Rightarrow> error + real" where
  "riskNeutralProb u d r q dt =
     (let p = (exp ((r - q) * dt) - d) / (u - d)
      in if p < 0 \<or> p > 1 then Inl (ArbitrageViolation p) else Inr p)"

text \<open>
  The payoff expression, written twice in the source (for the terminal layer and for the
  exercise value of a node): every kind other than \<^verbatim>\<open>"call"\<close> is priced as a put.
\<close>

definition payoff :: "string \<Rightarrow> real \<Rightarrow> real \<Rightarrow> real" where
  "payoff optionType K price =
     (if optionType = ''call'' then max 0 (price - K) else max 0 (K - price))"

text \<open>
  The variables the two loops of \<^verbatim>\<open>binomialOptionPricing\<close> read from the enclosing
  scope.
\<close>

record lattice =
  lS :: real
  lK :: real
  lu :: real
  ld :: real
  ldiscount :: real
  lp :: real
  loptionType :: string
  lexerciseType :: string

text \<open>
  The body of the inner loop, at layer \<open>i\<close> and index \<open>j\<close>: it overwrites
  \<^verbatim>\<open>optionValues[j]\<close> in place. Both reads are in range whenever \<open>j \<le> i\<close> and the array
  has more than \<open>i + 1\<close> entries, which is so at every call below
  (\<open>length_outer_loop\<close>, \<open>length_inner_loop\<close>).
\<close>

definition node_update :: "lattice \<Rightarrow> nat \<Rightarrow> nat \<Rightarrow> real list \<Rightarrow> real list" where
  "node_update c i j optionValues =
     (let hold = ldiscount c * (lp c * optionValues ! (j + 1) + (1 - lp c) * optionValues ! j)
      in if lexerciseType c = ''american'' then
           (let nodePrice = lS c * (lu c ^ j) * (ld c ^ (i - j));
                exercise = payoff (loptionType c) (lK c) nodePrice
            in optionValues[j := max hold exercise])
         else optionValues[j := hold])"

text \<open>\<^verbatim>\<open>for (let j = 0; j <= i; j += 1)\<close>, entered at \<open>j\<close>.\<close>

function inner_loop :: "lattice \<Rightarrow> nat \<Rightarrow> nat \<Rightarrow> real list \<Rightarrow> real list" where
  "inner_loop c i j optionValues =
     (if j \<le> i then inner_loop c i (j + 1) (node_update c i j optionValues)
      else optionValues)"
  by pat_completeness auto
termination
  by (relation "measure (\<lambda>(c, i, j, vs). Suc i - j)") auto

declare inner_loop.simps [simp del]

text \<open>
  \<^verbatim>\<open>for (let i = n - 1; i >= 0; i -= 1)\<close>: \<open>outer_loop c k\<close> runs the layers
  \<open>i = k - 1, \<dots>, 0\<close>.
\<close>

primrec outer_loop :: "lattice \<Rightarrow> nat \<Rightarrow> real list \<Rightarrow> real list" where
  "outer_loop c 0 = (\<lambda>optionValues. optionValues)"
| "outer_loop c (Suc i) = (\<lambda>optionValues. outer_loop c i (inner_loop c i 0 optionValues))"

text \<open>
  \<^verbatim>\<open>binomialOptionPricing(S, K, T, r, sigma, n, optionType, exerciseType, q)\<close>. After
  validation \<open>n\<close> is a positive integer, and \<open>nat \<lfloor>n\<rfloor>\<close> is that integer as an array
  length and exponent.
\<close>

definition binomialOptionPricing ::
  "real \<Rightarrow> real \<Rightarrow> real \<Rightarrow> real \<Rightarrow> real \<Rightarrow> real \<Rightarrow> string \<Rightarrow> string \<Rightarrow> real \<Rightarrow> error + real" where
  "binomialOptionPricing S K T r sigma n optionType exerciseType q =
     (case validateInputs \<lparr>pS = S, pK = K, pT = T, pr = r, psigma = sigma, pq = q, pn = n,
                           option_type = optionType, exercise_type = exerciseType\<rparr> of
        Inl e \<Rightarrow> Inl e
      | Inr _ \<Rightarrow>
         (let dt = T / n;
              discount = exp (- r * dt);
              u = (if sigma > 0 then exp (sigma * sqrt dt) else 1);
              d = 1 / u
          in if u = d then Inl DegenerateTree
             else
              (case riskNeutralProb u d r q dt of
                 Inl e \<Rightarrow> Inl e
               | Inr p \<Rightarrow>
                  (let N = nat \<lfloor>n\<rfloor>;
                       assetPrices = map (\<lambda>j. S * (u ^ j) * (d ^ (N - j))) [0..<N + 1];
                       optionValues = map (payoff optionType K) assetPrices;
                       c = \<lparr>lS = S, lK = K, lu = u, ld = d, ldiscount = discount, lp = p,
                            loptionType = optionType, lexerciseType = exerciseType\<rparr>
                   in Inr (outer_loop c N optionValues ! 0)))))"

text \<open>The pricer applied to a parameter object, with the step count and the volatility
  of the call site: the nine-argument call that the three drivers repeat.\<close>

definition price_at :: "params \<Rightarrow> real \<Rightarrow> real \<Rightarrow> real \<Rightarrow> real \<Rightarrow> error + real" where
  "price_at a S T sig n =
     binomialOptionPricing S (pK a) T (pr a) sig n (option_type a) (exercise_type a) (pq a)"

subsection \<open>The convergence driver\<close>

text \<open>
  The result \<^verbatim>\<open>{ price, n, trail }\<close>; an entry \<^verbatim>\<open>{ n, price }\<close> of the trail is the
  pair \<open>(n, price)\<close>.
\<close>

record conv_result =
  cr_price :: real
  cr_n :: real
  cr_trail :: "(real \<times> real) list"

text \<open>
  \<^verbatim>\<open>while (n <= nMax)\<close> with its state \<open>n\<close>, \<open>prev\<close>, \<open>trail\<close>; the local \<^verbatim>\<open>curr\<close>
  is \<open>cur\<close> here. With a step that is not positive the loop need not end, so not
  returning is the value \<open>None\<close>.
\<close>

partial_function (option) convergence_loop ::
  "params \<Rightarrow> real \<Rightarrow> real \<Rightarrow> real \<Rightarrow> real \<Rightarrow> real \<Rightarrow> (real \<times> real) list
     \<Rightarrow> (error + conv_result) option" where
  "convergence_loop a nMax tol step n prev trail =
     (if n \<le> nMax then
        (case price_at a (pS a) (pT a) (psigma a) n of
           Inl e \<Rightarrow> Some (Inl e)
         | Inr cur \<Rightarrow>
            (if \<bar>cur - prev\<bar> \<le> tol
             then Some (Inr \<lparr>cr_price = cur, cr_n = n, cr_trail = trail @ [(n, cur)]\<rparr>)
             else convergence_loop a nMax tol step (n + step) cur (trail @ [(n, cur)])))
      else Some (Inr \<lparr>cr_price = prev, cr_n = nMax, cr_trail = trail\<rparr>))"

definition priceWithConvergence ::
  "params \<Rightarrow> real \<Rightarrow> real \<Rightarrow> real \<Rightarrow> real \<Rightarrow> (error + conv_result) option" where
  "priceWithConvergence a nStart nMax tol step =
     (case price_at a (pS a) (pT a) (psigma a) nStart of
        Inl e \<Rightarrow> Some (Inl e)
      | Inr prev \<Rightarrow> convergence_loop a nMax tol step (nStart + step) prev [(nStart, prev)])"

subsection \<open>The implied-volatility solver\<close>

text \<open>
  \<^verbatim>\<open>for (let i = 0; i < maxIter; i += 1)\<close> with its state \<open>low\<close>, \<open>high\<close>; the counter is a
  natural number, the cap any number.
\<close>

function iv_loop ::
  "params \<Rightarrow> real \<Rightarrow> real \<Rightarrow> real \<Rightarrow> nat \<Rightarrow> real \<Rightarrow> real \<Rightarrow> error + real" where
  "iv_loop a marketPrice tol maxIter i low high =
     (if real i < maxIter then
        (case price_at a (pS a) (pT a) (0.5 * (low + high)) (pn a) of
           Inl e \<Rightarrow> Inl e
         | Inr priceMid \<Rightarrow>
            (if \<bar>priceMid - marketPrice\<bar> \<le> tol then Inr (0.5 * (low + high))
             else if priceMid < marketPrice
               then iv_loop a marketPrice tol maxIter (i + 1) (0.5 * (low + high)) high
               else iv_loop a marketPrice tol maxIter (i + 1) low (0.5 * (low + high))))
      else Inr (0.5 * (low + high)))"
  by pat_completeness auto
termination
  by (relation "measure (\<lambda>(a, m, t, maxIter, i, l, h). nat \<lceil>maxIter\<rceil> - i)") (auto, linarith+)

declare iv_loop.simps [simp del]

definition impliedVolatility ::
  "real \<Rightarrow> params \<Rightarrow> real \<Rightarrow> real \<Rightarrow> real \<Rightarrow> real \<Rightarrow> error + real" where
  "impliedVolatility marketPrice a volLow volHigh tol maxIter =
     (if \<not> (marketPrice > 0) then Inl InvalidTarget
      else
       (case price_at a (pS a) (pT a) volLow (pn a) of
          Inl e \<Rightarrow> Inl e
        | Inr priceLow \<Rightarrow>
           (case price_at a (pS a) (pT a) volHigh (pn a) of
              Inl e \<Rightarrow> Inl e
            | Inr priceHigh \<Rightarrow>
               (if \<not> (priceLow \<le> marketPrice \<and> marketPrice \<le> priceHigh) then Inl NotBracketed
                else iv_loop a marketPrice tol maxIter 0 volLow volHigh))))"

subsection \<open>The Greeks estimator\<close>

text \<open>
  A quotient of \<^verbatim>\<open>greeks\<close>. Its divisor is zero when the caller overrides a step with
  zero; JavaScript then yields NaN or an infinity, which is \<open>None\<close> here.
\<close>

definition js_div :: "real \<Rightarrow> real \<Rightarrow> real option" where
  "js_div x y = (if y = 0 then None else Some (x / y))"

record greeks_result =
  g_price :: real
  g_delta :: "real option"
  g_gamma :: "real option"
  g_theta :: "real option"

text \<open>
  \<^verbatim>\<open>greeks(params, dS = null, dT = null)\<close>: an argument that is \<^verbatim>\<open>null\<close> or absent is
  \<open>None\<close>, and \<^verbatim>\<open>??\<close> then takes the default step.
\<close>

definition greeks :: "params \<Rightarrow> real option \<Rightarrow> real option \<Rightarrow> error + greeks_result" where
  "greeks a dS dT =
     (let stepS = (case dS of Some v \<Rightarrow> v | None \<Rightarrow> max (0.01 * pS a) 0.0001);
          stepT = (case dT of Some v \<Rightarrow> v | None \<Rightarrow> max 0.0001 (0.001 * pT a))
      in case price_at a (pS a) (pT a) (psigma a) (pn a) of
           Inl e \<Rightarrow> Inl e
         | Inr base \<Rightarrow>
        (case price_at a (pS a + stepS) (pT a) (psigma a) (pn a) of
           Inl e \<Rightarrow> Inl e
         | Inr up \<Rightarrow>
        (case price_at a (pS a - stepS) (pT a) (psigma a) (pn a) of
           Inl e \<Rightarrow> Inl e
         | Inr down \<Rightarrow>
        (let delta = js_div (up - down) (2 * stepS);
             gamma = js_div (up - 2 * base + down) (stepS ^ 2)
         in case price_at a (pS a) (pT a + stepT) (psigma a) (pn a) of
              Inl e \<Rightarrow> Inl e
            | Inr upT \<Rightarrow>
           (case price_at a (pS a) (max (pT a - stepT) 0.00000001) (psigma a) (pn a) of
              Inl e \<Rightarrow> Inl e
            | Inr downT \<Rightarrow>
              (let theta = js_div (upT - downT) (2 * stepT)
               in Inr \<lparr>g_price = base, g_delta = delta, g_gamma = gamma,
                        g_theta = theta\<rparr>))))))"

subsection \<open>The value the specification defines\<close>

text \<open>
  The Cox-Ross-Rubinstein value as the specification words it (section 4.2), to be
  compared with \<open>binomialOptionPricing\<close>: the step size, the discount factor, the up
  and down factors and the risk-neutral probability; the terminal layer; and a backward
  induction that builds each layer as a new list from the layer after it, where the source
  overwrites one array in place. The specification gives a payoff to a call and to a put
  and a rule to the european and the american style, and to no other string.
\<close>

definition crr_dt :: "real \<Rightarrow> real \<Rightarrow> real" where
  "crr_dt T n = T / n"

definition crr_discount :: "real \<Rightarrow> real \<Rightarrow> real \<Rightarrow> real" where
  "crr_discount r T n = exp (- (r * crr_dt T n))"

definition crr_u :: "real \<Rightarrow> real \<Rightarrow> real \<Rightarrow> real" where
  "crr_u sigma T n = (if sigma > 0 then exp (sigma * sqrt (crr_dt T n)) else 1)"

definition crr_d :: "real \<Rightarrow> real \<Rightarrow> real \<Rightarrow> real" where
  "crr_d sigma T n = 1 / crr_u sigma T n"

definition crr_p :: "real \<Rightarrow> real \<Rightarrow> real \<Rightarrow> real \<Rightarrow> real \<Rightarrow> real" where
  "crr_p r q sigma T n =
     (exp ((r - q) * crr_dt T n) - crr_d sigma T n) / (crr_u sigma T n - crr_d sigma T n)"

definition crr_payoff :: "string \<Rightarrow> real \<Rightarrow> real \<Rightarrow> real" where
  "crr_payoff kind K price =
     (if kind = ''put'' then max 0 (K - price) else max 0 (price - K))"

definition crr_terminal :: "lattice \<Rightarrow> nat \<Rightarrow> real list" where
  "crr_terminal c N =
     map (\<lambda>j. crr_payoff (loptionType c) (lK c) (lS c * lu c ^ j * ld c ^ (N - j))) [0..<N + 1]"

definition crr_layer :: "lattice \<Rightarrow> nat \<Rightarrow> real list \<Rightarrow> real list" where
  "crr_layer c i nxt =
     map (\<lambda>j. let continuation = ldiscount c * (lp c * nxt ! (j + 1) + (1 - lp c) * nxt ! j);
                  intrinsic = crr_payoff (loptionType c) (lK c) (lS c * lu c ^ j * ld c ^ (i - j))
              in if lexerciseType c = ''european'' then continuation
                 else max continuation intrinsic)
         [0..<i + 1]"

primrec crr_induction :: "lattice \<Rightarrow> nat \<Rightarrow> real list \<Rightarrow> real list" where
  "crr_induction c 0 = (\<lambda>layer. layer)"
| "crr_induction c (Suc i) = (\<lambda>layer. crr_induction c i (crr_layer c i layer))"

definition crr_value ::
  "real \<Rightarrow> real \<Rightarrow> real \<Rightarrow> real \<Rightarrow> real \<Rightarrow> real \<Rightarrow> string \<Rightarrow> string \<Rightarrow> real \<Rightarrow> real" where
  "crr_value S K T r sigma n kind style q =
     (let c = \<lparr>lS = S, lK = K, lu = crr_u sigma T n, ld = crr_d sigma T n,
               ldiscount = crr_discount r T n, lp = crr_p r q sigma T n,
               loptionType = kind, lexerciseType = style\<rparr>;
          N = nat \<lfloor>n\<rfloor>
      in crr_induction c N (crr_terminal c N) ! 0)"

text \<open>The parameter object of a nine-argument call of the pricer.\<close>

definition params_of ::
  "real \<Rightarrow> real \<Rightarrow> real \<Rightarrow> real \<Rightarrow> real \<Rightarrow> real \<Rightarrow> string \<Rightarrow> string \<Rightarrow> real \<Rightarrow> params" where
  "params_of S K T r sigma n optionType exerciseType q =
     \<lparr>pS = S, pK = K, pT = T, pr = r, psigma = sigma, pq = q, pn = n,
      option_type = optionType, exercise_type = exerciseType\<rparr>"

subsection \<open>The defaults of the form\<close>

text \<open>
  The parameter object \<^verbatim>\<open>readInputs\<close> yields once \<^verbatim>\<open>resetDefaults\<close> has filled the
  form, and the call \<^verbatim>\<open>impliedVolatility(target, params)\<close> of \<^verbatim>\<open>run\<close>, which leaves the
  bounds, the tolerance and the iteration cap to their default values.
\<close>

definition resetDefaults :: params where
  "resetDefaults =
     \<lparr>pS = 100, pK = 100, pT = 1, pr = 0.05, psigma = 0.2, pq = 0.02, pn = 200,
      option_type = ''call'', exercise_type = ''european''\<rparr>"

definition impliedVolatility_default :: "real \<Rightarrow> params \<Rightarrow> error + real" where
  "impliedVolatility_default marketPrice a = impliedVolatility marketPrice a 0.000001 5 0.000001 100"

subsection \<open>What a run of the convergence driver returns\<close>

text \<open>
  The pricer at step count \<open>n\<close>, as both calls of \<^verbatim>\<open>priceWithConvergence\<close> invoke it, and
  the words of the specification for the result of a run: every entry of the trail is a
  step count \<open>nStart + k step\<close> with the pricer's output there; the tolerance is met at
  entry \<open>k\<close> when its price is within \<open>tol\<close> of the price before it; the run stops at the
  first entry that meets the tolerance and reports that entry, or it stops when the next
  step count would exceed \<open>nMax\<close> and reports the last price with \<open>nMax\<close>.
\<close>

definition price_n :: "params \<Rightarrow> real \<Rightarrow> error + real" where
  "price_n a n = price_at a (pS a) (pT a) (psigma a) n"

definition trail_entries_ok :: "params \<Rightarrow> real \<Rightarrow> real \<Rightarrow> (real \<times> real) list \<Rightarrow> bool" where
  "trail_entries_ok a nStart step trail \<longleftrightarrow>
     (\<forall>k<length trail. fst (trail ! k) = nStart + real k * step
        \<and> price_n a (nStart + real k * step) = Inr (snd (trail ! k)))"

definition tolerance_met :: "real \<Rightarrow> (real \<times> real) list \<Rightarrow> nat \<Rightarrow> bool" where
  "tolerance_met tol trail k \<longleftrightarrow> \<bar>snd (trail ! k) - snd (trail ! (k - 1))\<bar> \<le> tol"

definition convergence_post ::
  "params \<Rightarrow> real \<Rightarrow> real \<Rightarrow> real \<Rightarrow> real \<Rightarrow> conv_result \<Rightarrow> bool" where
  "convergence_post a nStart nMax tol step res \<longleftrightarrow>
     cr_trail res \<noteq> []
     \<and> trail_entries_ok a nStart step (cr_trail res)
     \<and> cr_price res = snd (last (cr_trail res))
     \<and> (\<forall>k. 1 \<le> k \<and> k < length (cr_trail res) - 1 \<longrightarrow> \<not> tolerance_met tol (cr_trail res) k)
     \<and> (if 1 \<le> length (cr_trail res) - 1
            \<and> tolerance_met tol (cr_trail res) (length (cr_trail res) - 1)
         then cr_n res = fst (last (cr_trail res)) \<and> cr_n res \<le> nMax
         else cr_n res = nMax \<and> nStart + real (length (cr_trail res)) * step > nMax)"

subsection \<open>The rounds of the bisection\<close>

text \<open>
  The words of the specification for the solver: the midpoint of an interval
  \<open>[low, high]\<close>; the interval one round of bisection narrows it to; the interval after
  \<open>k\<close> rounds; and whether the price at the midpoint of an interval is within the
  tolerance of the target.
\<close>

definition iv_mid :: "real \<times> real \<Rightarrow> real" where
  "iv_mid b = 0.5 * (fst b + snd b)"

definition iv_narrow :: "params \<Rightarrow> real \<Rightarrow> real \<times> real \<Rightarrow> real \<times> real" where
  "iv_narrow a marketPrice b =
     (case price_at a (pS a) (pT a) (iv_mid b) (pn a) of
        Inl e \<Rightarrow> b
      | Inr priceMid \<Rightarrow> if priceMid < marketPrice then (iv_mid b, snd b) else (fst b, iv_mid b))"

definition iv_interval :: "params \<Rightarrow> real \<Rightarrow> real \<Rightarrow> real \<Rightarrow> nat \<Rightarrow> real \<times> real" where
  "iv_interval a marketPrice volLow volHigh k = (iv_narrow a marketPrice ^^ k) (volLow, volHigh)"

definition iv_met :: "params \<Rightarrow> real \<Rightarrow> real \<Rightarrow> real \<times> real \<Rightarrow> bool" where
  "iv_met a marketPrice tol b \<longleftrightarrow>
     (case price_at a (pS a) (pT a) (iv_mid b) (pn a) of
        Inl e \<Rightarrow> False
      | Inr priceMid \<Rightarrow> \<bar>priceMid - marketPrice\<bar> \<le> tol)"

subsection \<open>A parameter object whose price does not depend on the volatility\<close>

text \<open>
  An american put deep in the money on a tree of one step: exercising at once is worth
  \<open>K - S = 99\<close>, more than holding at any volatility.
\<close>

definition deep_put :: params where
  "deep_put =
     \<lparr>pS = 1, pK = 100, pT = 1, pr = 0.05, psigma = 0.2, pq = 0.05, pn = 1,
      option_type = ''put'', exercise_type = ''american''\<rparr>"

subsection \<open>Four more parameter objects\<close>



definition atm_call :: params where
  "atm_call =
     \<lparr>pS = 100, pK = 100, pT = 1, pr = 0, psigma = 0.2, pq = 0, pn = 1,
      option_type = ''call'', exercise_type = ''european''\<rparr>"

definition unit_call :: params where
  "unit_call = atm_call\<lparr>pS := 1, pK := 1\<rparr>"

subsection \<open>A price that grows with the volatility\<close>

text \<open>
  The assumption the specification names for the solver (section 4.4), in its strict
  form: between the bounds the pricer returns a price at every volatility, and a larger
  volatility gives a larger price.
\<close>

definition price_increasing :: "params \<Rightarrow> real \<Rightarrow> real \<Rightarrow> bool" where
  "price_increasing a volLow volHigh \<longleftrightarrow>
     (\<forall>s1 s2. volLow \<le> s1 \<and> s1 < s2 \<and> s2 \<le> volHigh \<longrightarrow>
        (\<exists>p1 p2. price_at a (pS a) (pT a) s1 (pn a) = Inr p1
                \<and> price_at a (pS a) (pT a) s2 (pn a) = Inr p2 \<and> p1 < p2))"

section \<open>Properties\<close>

subsection \<open>The validator and the in-place induction\<close>

lemma validate_iff:
  "validateInputs a = Inr () \<longleftrightarrow>
     pS a > 0 \<and> pK a > 0 \<and> pT a > 0 \<and> pn a > 0 \<and> isInteger (pn a) \<and> psigma a \<ge> 0 \<and> pq a \<ge> 0
     \<and> option_type a \<in> {''call'', ''put''} \<and> exercise_type a \<in> {''european'', ''american''}"
  by (auto simp: validateInputs_def array_includes_def)

lemma length_node_update [simp]: "length (node_update c i j vs) = length vs"
  by (simp add: node_update_def Let_def)

lemma length_inner_loop [simp]: "length (inner_loop c i j vs) = length vs"
  by (induction c i j vs rule: inner_loop.induct) (subst inner_loop.simps, simp)

lemma length_outer_loop [simp]: "length (outer_loop c k vs) = length vs"
  by (induction k arbitrary: vs) simp_all

text \<open>The value the inner loop writes at index j of layer i.\<close>

lemma inner_loop_nth:
  "i + 1 < length vs \<Longrightarrow> m < length vs \<Longrightarrow>
   inner_loop c i j vs ! m =
     (if j \<le> m \<and> m \<le> i then node_update c i m vs ! m else vs ! m)"
proof (induction c i j vs rule: inner_loop.induct)
  case (1 c i j vs)
  show ?case
  proof (cases "j \<le> i")
    case False
    then show ?thesis by (subst inner_loop.simps) auto
  next
    case True
    have len: "i + 1 < length (node_update c i j vs)" "m < length (node_update c i j vs)"
      using "1.prems" by simp_all
    have step: "inner_loop c i j vs ! m = inner_loop c i (j + 1) (node_update c i j vs) ! m"
      using True by (subst inner_loop.simps) simp
    have ih: "inner_loop c i (j + 1) (node_update c i j vs) ! m =
       (if j + 1 \<le> m \<and> m \<le> i then node_update c i m (node_update c i j vs) ! m
        else node_update c i j vs ! m)"
      using "1.IH"[OF True len] .
    show ?thesis
    proof (cases "j + 1 \<le> m \<and> m \<le> i")
      case True
      then have "node_update c i m (node_update c i j vs) ! m = node_update c i m vs ! m"
        using "1.prems" by (simp add: node_update_def Let_def)
      with True step ih show ?thesis by simp
    next
      case False
      then consider "m = j" | "m < j" | "m > i" by linarith
      then show ?thesis
      proof cases
        case 1 with step ih True show ?thesis by simp
      next
        case 2 with step ih "1.prems" show ?thesis by (simp add: node_update_def Let_def)
      next
        case 3 with step ih True "1.prems" show ?thesis by (simp add: node_update_def Let_def)
      qed
    qed
  qed
qed


lemma payoff_crr: "kind \<in> {''call'', ''put''} \<Longrightarrow> payoff kind K x = crr_payoff kind K x"
  by (auto simp: payoff_def crr_payoff_def)

lemma node_update_crr:
  assumes "loptionType c \<in> {''call'', ''put''}" "lexerciseType c \<in> {''european'', ''american''}"
    and "m \<le> i" "i + 1 < length A" "A ! m = B ! m" "A ! (m + 1) = B ! (m + 1)"
  shows "node_update c i m A ! m = crr_layer c i B ! m"
proof -
  have "crr_layer c i B ! m =
      (let continuation = ldiscount c * (lp c * B ! (m + 1) + (1 - lp c) * B ! m);
           intrinsic = crr_payoff (loptionType c) (lK c) (lS c * lu c ^ m * ld c ^ (i - m))
       in if lexerciseType c = ''european'' then continuation else max continuation intrinsic)"
    using assms(3) unfolding crr_layer_def by (simp add: Let_def del: upt_Suc)
  moreover have "m < length A" using assms by simp
  ultimately show ?thesis
    using assms by (auto simp: node_update_def Let_def payoff_crr)
qed

lemma outer_loop_crr:
  assumes "loptionType c \<in> {''call'', ''put''}" "lexerciseType c \<in> {''european'', ''american''}"
  shows "k < length A \<Longrightarrow> (\<forall>j\<le>k. A ! j = B ! j) \<Longrightarrow>
         outer_loop c k A ! 0 = crr_induction c k B ! 0"
proof (induction k arbitrary: A B)
  case 0
  then show ?case by simp
next
  case (Suc k)
  have "\<forall>j\<le>k. inner_loop c k 0 A ! j = crr_layer c k B ! j"
  proof (intro allI impI)
    fix j assume j: "j \<le> k"
    have "inner_loop c k 0 A ! j = node_update c k j A ! j"
      using Suc.prems j by (simp add: inner_loop_nth)
    also have "\<dots> = crr_layer c k B ! j"
      using Suc.prems j by (intro node_update_crr assms) auto
    finally show "inner_loop c k 0 A ! j = crr_layer c k B ! j" .
  qed
  moreover have "k < length (inner_loop c k 0 A)" using Suc.prems by simp
  ultimately have "outer_loop c k (inner_loop c k 0 A) ! 0 = crr_induction c k (crr_layer c k B) ! 0"
    by (rule Suc.IH[rotated])
  then show ?case by simp
qed

text \<open>The pricer on validated parameters, in the specification's terms.\<close>

lemma bop_validated:
  assumes "validateInputs (params_of S K T r sigma n kind style q) = Inr ()"
  shows "binomialOptionPricing S K T r sigma n kind style q =
     (if crr_u sigma T n = crr_d sigma T n then Inl DegenerateTree
      else if crr_p r q sigma T n < 0 \<or> crr_p r q sigma T n > 1
        then Inl (ArbitrageViolation (crr_p r q sigma T n))
      else Inr (crr_value S K T r sigma n kind style q))"
proof -
  have kind: "kind \<in> {''call'', ''put''}" and style: "style \<in> {''european'', ''american''}"
    using assms by (simp_all add: validate_iff params_of_def)
  define c where "c = \<lparr>lS = S, lK = K, lu = crr_u sigma T n, ld = crr_d sigma T n,
               ldiscount = crr_discount r T n, lp = crr_p r q sigma T n,
               loptionType = kind, lexerciseType = style\<rparr>"
  have "outer_loop c (nat \<lfloor>n\<rfloor>) (crr_terminal c (nat \<lfloor>n\<rfloor>)) ! 0 =
        crr_induction c (nat \<lfloor>n\<rfloor>) (crr_terminal c (nat \<lfloor>n\<rfloor>)) ! 0"
    using kind style by (intro outer_loop_crr) (simp_all add: c_def crr_terminal_def)
  then have val: "outer_loop c (nat \<lfloor>n\<rfloor>) (crr_terminal c (nat \<lfloor>n\<rfloor>)) ! 0 =
        crr_value S K T r sigma n kind style q"
    by (simp add: crr_value_def c_def Let_def)
  define u where "u = crr_u sigma T n"
  define d where "d = crr_d sigma T n"
  define p where "p = crr_p r q sigma T n"
  have u: "(if sigma > 0 then exp (sigma * sqrt (T / n)) else 1) = u"
    by (simp add: u_def crr_u_def crr_dt_def)
  have d: "1 / u = d"
    by (simp add: u_def d_def crr_d_def)
  have p: "(exp ((r - q) * (T / n)) - d) / (u - d) = p"
    by (simp add: u_def d_def p_def crr_p_def crr_dt_def)
  have disc: "exp (- r * (T / n)) = crr_discount r T n"
    by (simp add: crr_discount_def crr_dt_def)
  have ok: "validateInputs \<lparr>pS = S, pK = K, pT = T, pr = r, psigma = sigma, pq = q, pn = n,
                           option_type = kind, exercise_type = style\<rparr> = Inr ()"
    using assms by (simp add: params_of_def)
  have "binomialOptionPricing S K T r sigma n kind style q =
     (if u = d then Inl DegenerateTree
      else if p < 0 \<or> p > 1 then Inl (ArbitrageViolation p)
      else Inr (outer_loop c (nat \<lfloor>n\<rfloor>) (crr_terminal c (nat \<lfloor>n\<rfloor>)) ! 0))"
    unfolding binomialOptionPricing_def ok Let_def u d riskNeutralProb_def p disc
    by (simp add: c_def u_def d_def p_def crr_terminal_def payoff_crr[OF kind] comp_def
        del: upt_Suc)
  then show ?thesis
    by (simp add: val u_def d_def p_def)
qed


subsection \<open>The factors and the probability\<close>

lemma crr_dt_pos: "T > 0 \<Longrightarrow> n > 0 \<Longrightarrow> crr_dt T n > 0"
  by (simp add: crr_dt_def)

lemma crr_u_exp: "sigma > 0 \<Longrightarrow> crr_u sigma T n = exp (sigma * sqrt (crr_dt T n))"
  by (simp add: crr_u_def)

lemma crr_d_exp: "sigma > 0 \<Longrightarrow> crr_d sigma T n = exp (- (sigma * sqrt (crr_dt T n)))"
  by (simp add: crr_d_def crr_u_def exp_minus inverse_eq_divide)

lemma crr_u_eq_d_iff:
  assumes "sigma \<ge> 0" "T > 0" "n > 0"
  shows "crr_u sigma T n = crr_d sigma T n \<longleftrightarrow> sigma = 0"
proof (cases "sigma = 0")
  case True
  then show ?thesis by (simp add: crr_u_def crr_d_def)
next
  case False
  with assms have pos: "sigma > 0" by simp
  have "sigma * sqrt (crr_dt T n) > 0"
    using pos crr_dt_pos[OF assms(2,3)] by simp
  then have "exp (- (sigma * sqrt (crr_dt T n))) < exp (sigma * sqrt (crr_dt T n))"
    by (subst exp_less_cancel_iff) linarith
  then have "crr_d sigma T n < crr_u sigma T n"
    unfolding crr_u_exp[OF pos] crr_d_exp[OF pos] .
  then show ?thesis using False by auto
qed

lemma crr_p_range:
  assumes "sigma > 0" "T > 0" "n > 0"
  shows "0 \<le> crr_p r q sigma T n \<and> crr_p r q sigma T n \<le> 1 \<longleftrightarrow>
         \<bar>r - q\<bar> * crr_dt T n \<le> sigma * sqrt (crr_dt T n)"
proof -
  define s where "s = sigma * sqrt (crr_dt T n)"
  define x where "x = (r - q) * crr_dt T n"
  have dt: "crr_dt T n > 0" using assms by (simp add: crr_dt_pos)
  have s: "s > 0" using assms(1) dt by (simp add: s_def)
  have den: "exp s - exp (- s) > 0" using s by simp
  have p: "crr_p r q sigma T n = (exp x - exp (- s)) / (exp s - exp (- s))"
    using assms(1) by (simp add: crr_p_def crr_u_exp crr_d_exp s_def x_def)
  have "0 \<le> crr_p r q sigma T n \<longleftrightarrow> - s \<le> x"
    unfolding p using den by (simp add: zero_le_divide_iff)
  moreover have "crr_p r q sigma T n \<le> 1 \<longleftrightarrow> x \<le> s"
    unfolding p using den by (simp add: divide_le_eq)
  moreover have "\<bar>r - q\<bar> * crr_dt T n = \<bar>x\<bar>"
    using dt by (simp add: x_def abs_mult)
  ultimately show ?thesis
    unfolding s_def[symmetric] by (auto simp: abs_le_iff)
qed

lemma crr_discount_pos: "crr_discount r T n > 0"
  by (simp add: crr_discount_def)

lemma le_sqrt_unit: "0 \<le> x \<Longrightarrow> x \<le> 1 \<Longrightarrow> x \<le> sqrt x"
proof -
  assume a: "0 \<le> x" "x \<le> 1"
  have "x * x \<le> x * 1" using a by (intro mult_left_mono) simp_all
  then have "x\<^sup>2 \<le> x" by (simp add: power2_eq_square)
  then have "sqrt (x\<^sup>2) \<le> sqrt x" by (rule real_sqrt_le_mono)
  then show ?thesis using a by simp
qed

text \<open>When the pricer returns a value.\<close>

lemma bop_Inr_iff:
  "binomialOptionPricing S K T r sigma n kind style q = Inr v \<longleftrightarrow>
     validateInputs (params_of S K T r sigma n kind style q) = Inr () \<and>
     crr_u sigma T n \<noteq> crr_d sigma T n \<and>
     0 \<le> crr_p r q sigma T n \<and> crr_p r q sigma T n \<le> 1 \<and>
     v = crr_value S K T r sigma n kind style q"
proof (cases "validateInputs (params_of S K T r sigma n kind style q)")
  case (Inl e)
  then show ?thesis
    by (simp add: binomialOptionPricing_def params_of_def)
next
  case (Inr x)
  then have "validateInputs (params_of S K T r sigma n kind style q) = Inr ()" by simp
  then show ?thesis by (auto simp: bop_validated)
qed

lemma bop_succeeds_iff:
  "(\<exists>v. binomialOptionPricing S K T r sigma n kind style q = Inr v) \<longleftrightarrow>
     validateInputs (params_of S K T r sigma n kind style q) = Inr () \<and> sigma > 0 \<and>
     \<bar>r - q\<bar> * crr_dt T n \<le> sigma * sqrt (crr_dt T n)"
proof (cases "validateInputs (params_of S K T r sigma n kind style q) = Inr ()")
  case False
  then show ?thesis by (simp add: bop_Inr_iff)
next
  case True
  then have v: "T > 0" "n > 0" "sigma \<ge> 0"
    by (simp_all add: validate_iff params_of_def)
  show ?thesis
  proof (cases "sigma = 0")
    case True
    then show ?thesis using crr_u_eq_d_iff[OF v(3,1,2)] by (simp add: bop_Inr_iff)
  next
    case False
    then have "sigma > 0" using v by simp
    then show ?thesis
      using crr_u_eq_d_iff[OF v(3,1,2)] crr_p_range[OF _ v(1,2), of sigma r q] True
      by (simp add: bop_Inr_iff)
  qed
qed


subsection \<open>Early exercise\<close>

lemma crr_layer_nth:
  "j \<le> i \<Longrightarrow> crr_layer c i A ! j =
     (if lexerciseType c = ''european''
      then ldiscount c * (lp c * A ! (j + 1) + (1 - lp c) * A ! j)
      else max (ldiscount c * (lp c * A ! (j + 1) + (1 - lp c) * A ! j))
               (crr_payoff (loptionType c) (lK c) (lS c * lu c ^ j * ld c ^ (i - j))))"
  unfolding crr_layer_def by (simp add: Let_def del: upt_Suc)

lemma crr_layer_mono:
  assumes "0 \<le> ldiscount c" "0 \<le> lp c" "lp c \<le> 1" "j \<le> i"
    and "A ! j \<le> B ! j" "A ! (j + 1) \<le> B ! (j + 1)"
  shows "crr_layer (c\<lparr>lexerciseType := ''european''\<rparr>) i A ! j
         \<le> crr_layer (c\<lparr>lexerciseType := ''american''\<rparr>) i B ! j"
proof -
  have "lp c * A ! (j + 1) + (1 - lp c) * A ! j \<le> lp c * B ! (j + 1) + (1 - lp c) * B ! j"
    using assms by (intro add_mono mult_left_mono) simp_all
  then have "ldiscount c * (lp c * A ! (j + 1) + (1 - lp c) * A ! j)
        \<le> ldiscount c * (lp c * B ! (j + 1) + (1 - lp c) * B ! j)"
    using assms(1) by (rule mult_left_mono)
  then show ?thesis
    using assms(4) by (simp add: crr_layer_nth)
qed

lemma crr_induction_mono:
  assumes "0 \<le> ldiscount c" "0 \<le> lp c" "lp c \<le> 1"
  shows "(\<forall>j\<le>k. A ! j \<le> B ! j) \<Longrightarrow>
         crr_induction (c\<lparr>lexerciseType := ''european''\<rparr>) k A ! 0
         \<le> crr_induction (c\<lparr>lexerciseType := ''american''\<rparr>) k B ! 0"
proof (induction k arbitrary: A B)
  case 0
  then show ?case by simp
next
  case (Suc k)
  have "\<forall>j\<le>k. crr_layer (c\<lparr>lexerciseType := ''european''\<rparr>) k A ! j
         \<le> crr_layer (c\<lparr>lexerciseType := ''american''\<rparr>) k B ! j"
    using Suc.prems by (auto intro!: crr_layer_mono assms)
  then show ?case
    using Suc.IH by simp
qed

lemma crr_value_mono:
  assumes "0 \<le> crr_p r q sigma T n" "crr_p r q sigma T n \<le> 1"
  shows "crr_value S K T r sigma n kind ''european'' q \<le> crr_value S K T r sigma n kind ''american'' q"
proof -
  define c where "c = \<lparr>lS = S, lK = K, lu = crr_u sigma T n, ld = crr_d sigma T n,
               ldiscount = crr_discount r T n, lp = crr_p r q sigma T n,
               loptionType = kind, lexerciseType = ''european''\<rparr>"
  have le: "0 \<le> ldiscount c" "0 \<le> lp c" "lp c \<le> 1"
    using assms crr_discount_pos[of r T n] by (simp_all add: c_def)
  have terminal: "crr_terminal (c\<lparr>lexerciseType := ''european''\<rparr>) (nat \<lfloor>n\<rfloor>) =
      crr_terminal (c\<lparr>lexerciseType := ''american''\<rparr>) (nat \<lfloor>n\<rfloor>)"
    by (simp add: crr_terminal_def)
  have "crr_induction (c\<lparr>lexerciseType := ''european''\<rparr>) (nat \<lfloor>n\<rfloor>)
          (crr_terminal (c\<lparr>lexerciseType := ''european''\<rparr>) (nat \<lfloor>n\<rfloor>)) ! 0
     \<le> crr_induction (c\<lparr>lexerciseType := ''american''\<rparr>) (nat \<lfloor>n\<rfloor>)
          (crr_terminal (c\<lparr>lexerciseType := ''american''\<rparr>) (nat \<lfloor>n\<rfloor>)) ! 0"
    unfolding terminal by (rule crr_induction_mono[OF le]) simp
  then show ?thesis
    by (simp add: crr_value_def c_def Let_def)
qed

subsection \<open>The form's defaults are free of arbitrage\<close>

lemma defaults_arbitrage_free:
  assumes "n \<ge> 1"
  shows "\<bar>0.05 - 0.02\<bar> * crr_dt 1 n \<le> 0.2 * sqrt (crr_dt 1 n)"
proof -
  have "crr_dt 1 n \<le> sqrt (crr_dt 1 n)"
    using assms by (intro le_sqrt_unit) (simp_all add: crr_dt_def)
  moreover have "0 \<le> crr_dt 1 n" using assms by (simp add: crr_dt_def)
  ultimately show ?thesis by simp
qed

subsection \<open>The loop of the convergence driver\<close>

lemma tolerance_met_append:
  assumes "k < length trail"
  shows "tolerance_met tol (trail @ [x]) k = tolerance_met tol trail k"
proof -
  have "k - 1 < length trail" using assms by simp
  then show ?thesis using assms by (simp add: tolerance_met_def nth_append)
qed

lemma trail_entries_ok_append:
  "trail_entries_ok a nStart step trail \<Longrightarrow> n = nStart + real (length trail) * step \<Longrightarrow>
   price_n a n = Inr cur \<Longrightarrow> trail_entries_ok a nStart step (trail @ [(n, cur)])"
  by (auto simp: trail_entries_ok_def nth_append less_Suc_eq)

text \<open>The invariant of the loop: the trail so far, with no entry that met the tolerance.\<close>

lemma convergence_loop_inv:
  assumes "convergence_loop a nMax tol step n prev trail = Some out"
  shows "\<forall>nStart. trail \<noteq> [] \<and> trail_entries_ok a nStart step trail
           \<and> n = nStart + real (length trail) * step \<and> prev = snd (last trail)
           \<and> (\<forall>k. 1 \<le> k \<and> k < length trail \<longrightarrow> \<not> tolerance_met tol trail k)
         \<longrightarrow> (\<forall>res. out = Inr res \<longrightarrow> convergence_post a nStart nMax tol step res)"
proof (rule convergence_loop.raw_induct[where P = "\<lambda>a nMax tol step n prev trail out.
         \<forall>nStart. trail \<noteq> [] \<and> trail_entries_ok a nStart step trail
           \<and> n = nStart + real (length trail) * step \<and> prev = snd (last trail)
           \<and> (\<forall>k. 1 \<le> k \<and> k < length trail \<longrightarrow> \<not> tolerance_met tol trail k)
         \<longrightarrow> (\<forall>res. out = Inr res \<longrightarrow> convergence_post a nStart nMax tol step res)",
       OF _ assms], intro allI impI, elim conjE, goal_cases)
  case (1 loop a nMax tol step n prev trail out nStart res)
  note IH = 1(1) and eq = 1(2) and res = 1(3) and ne = 1(4) and ok = 1(5) and n = 1(6)
    and prev = 1(7) and nomet = 1(8)
  show ?case
  proof (cases "n \<le> nMax")
    case False
    with eq res have out: "res = \<lparr>cr_price = prev, cr_n = nMax, cr_trail = trail\<rparr>"
      by simp
    have lastno: "\<not> (1 \<le> length trail - 1 \<and> tolerance_met tol trail (length trail - 1))"
      using ne nomet by (cases "length trail") auto
    have "\<forall>k. 1 \<le> k \<and> k < length trail - 1 \<longrightarrow> \<not> tolerance_met tol trail k"
    proof (intro allI impI)
      fix k assume "1 \<le> k \<and> k < length trail - 1"
      then have "1 \<le> k \<and> k < length trail" by arith
      with nomet show "\<not> tolerance_met tol trail k" by blast
    qed
    then show ?thesis
      unfolding convergence_post_def out using ne ok prev lastno False n by auto
  next
    case True
    show ?thesis
    proof (cases "price_at a (pS a) (pT a) (psigma a) n")
      case (Inl e)
      with True eq res show ?thesis by simp
    next
      case (Inr cur)
      let ?trail = "trail @ [(n, cur)]"
      have ok': "trail_entries_ok a nStart step ?trail"
        using ok n Inr by (intro trail_entries_ok_append) (simp_all add: price_n_def)
      have last: "snd (?trail ! (length ?trail - 1 - 1)) = prev"
        "snd (?trail ! (length ?trail - 1)) = cur"
        using ne prev by (simp_all add: nth_append last_conv_nth)
      have met: "tolerance_met tol ?trail (length ?trail - 1) \<longleftrightarrow> \<bar>cur - prev\<bar> \<le> tol"
        unfolding tolerance_met_def last ..
      have earlier: "\<forall>k. 1 \<le> k \<and> k < length ?trail - 1 \<longrightarrow> \<not> tolerance_met tol ?trail k"
      proof (intro allI impI)
        fix k assume "1 \<le> k \<and> k < length ?trail - 1"
        then have k: "1 \<le> k \<and> k < length trail" by simp
        then have "tolerance_met tol ?trail k = tolerance_met tol trail k"
          by (intro tolerance_met_append) simp
        with nomet k show "\<not> tolerance_met tol ?trail k" by blast
      qed
      show ?thesis
      proof (cases "\<bar>cur - prev\<bar> \<le> tol")
        case yes: True
        with True Inr eq res
        have out: "res = \<lparr>cr_price = cur, cr_n = n, cr_trail = ?trail\<rparr>" by simp
        have "1 \<le> length ?trail - 1" using ne by (cases trail) simp_all
        then show ?thesis
          unfolding convergence_post_def out using ok' met yes earlier True by auto
      next
        case no: False
        with True Inr eq
        have rec: "loop a nMax tol step (n + step) cur ?trail = Some out" by simp
        have all: "\<forall>k. 1 \<le> k \<and> k < length ?trail \<longrightarrow> \<not> tolerance_met tol ?trail k"
        proof (intro allI impI)
          fix k assume k: "1 \<le> k \<and> k < length ?trail"
          show "\<not> tolerance_met tol ?trail k"
          proof (cases "k = length ?trail - 1")
            case True then show ?thesis using met no by simp
          next
            case False then show ?thesis using earlier k by simp
          qed
        qed
        have "n + step = nStart + real (length ?trail) * step"
          using n by (simp add: algebra_simps)
        moreover have "cur = snd (last ?trail)" "?trail \<noteq> []" by simp_all
        ultimately show ?thesis
          using IH[OF rec] ok' all res by blast
      qed
    qed
  qed
qed

lemma priceWithConvergence_post:
  assumes "priceWithConvergence a nStart nMax tol step = Some (Inr res)"
  shows "convergence_post a nStart nMax tol step res"
proof (cases "price_at a (pS a) (pT a) (psigma a) nStart")
  case (Inl e)
  with assms show ?thesis by (simp add: priceWithConvergence_def)
next
  case (Inr prev)
  with assms have loop:
    "convergence_loop a nMax tol step (nStart + step) prev [(nStart, prev)] = Some (Inr res)"
    by (simp add: priceWithConvergence_def)
  have "trail_entries_ok a nStart step [(nStart, prev)]"
    using Inr by (simp add: trail_entries_ok_def price_n_def)
  then show ?thesis
    using convergence_loop_inv[OF loop] by simp
qed






subsection \<open>Runs of the convergence driver on the form's defaults\<close>

lemma price_n_defaults:
  assumes "n \<ge> 1" "isInteger n"
  shows "price_n resetDefaults n = Inr (crr_value 100 100 1 0.05 0.2 n ''call'' ''european'' 0.02)"
proof -
  have "0 \<le> crr_p 0.05 0.02 0.2 1 n \<and> crr_p 0.05 0.02 0.2 1 n \<le> 1"
    using defaults_arbitrage_free[OF assms(1)] assms(1) by (simp add: crr_p_range)
  moreover have "crr_u 0.2 1 n \<noteq> crr_d 0.2 1 n"
    using assms(1) by (simp add: crr_u_eq_d_iff)
  moreover have "validateInputs (params_of 100 100 1 0.05 0.2 n ''call'' ''european'' 0.02) = Inr ()"
    using assms by (simp add: validate_iff params_of_def)
  ultimately show ?thesis
    by (simp add: price_n_def price_at_def resetDefaults_def bop_Inr_iff)
qed

lemma defaults_run_50_100:
  "priceWithConvergence resetDefaults 50 100 tol 50 =
     Some (Inr \<lparr>cr_price = crr_value 100 100 1 0.05 0.2 100 ''call'' ''european'' 0.02,
                 cr_n = 100,
                 cr_trail = [(50, crr_value 100 100 1 0.05 0.2 50 ''call'' ''european'' 0.02),
                             (100, crr_value 100 100 1 0.05 0.2 100 ''call'' ''european'' 0.02)]\<rparr>)"
proof -
  define v50 where "v50 = crr_value 100 100 1 0.05 0.2 50 ''call'' ''european'' 0.02"
  define v100 where "v100 = crr_value 100 100 1 0.05 0.2 100 ''call'' ''european'' 0.02"
  have p50: "price_at resetDefaults (pS resetDefaults) (pT resetDefaults) (psigma resetDefaults) 50
      = Inr v50"
    using price_n_defaults[of 50] by (simp add: price_n_def isInteger_def v50_def)
  have p100: "price_at resetDefaults (pS resetDefaults) (pT resetDefaults) (psigma resetDefaults) 100
      = Inr v100"
    using price_n_defaults[of 100] by (simp add: price_n_def isInteger_def v100_def)
  have last: "convergence_loop resetDefaults 100 tol 50 150 v100 [(50, v50), (100, v100)]
      = Some (Inr \<lparr>cr_price = v100, cr_n = 100, cr_trail = [(50, v50), (100, v100)]\<rparr>)"
    by (subst convergence_loop.simps) simp
  have loop: "convergence_loop resetDefaults 100 tol 50 100 v50 [(50, v50)]
      = Some (Inr \<lparr>cr_price = v100, cr_n = 100, cr_trail = [(50, v50), (100, v100)]\<rparr>)"
    by (subst convergence_loop.simps) (simp add: p100 last)
  show ?thesis
    unfolding v50_def[symmetric] v100_def[symmetric]
    by (simp add: priceWithConvergence_def p50 loop)
qed

lemma defaults_run_50_60:
  "priceWithConvergence resetDefaults 50 60 tol 50 =
     Some (Inr \<lparr>cr_price = crr_value 100 100 1 0.05 0.2 50 ''call'' ''european'' 0.02,
                 cr_n = 60,
                 cr_trail = [(50, crr_value 100 100 1 0.05 0.2 50 ''call'' ''european'' 0.02)]\<rparr>)"
proof -
  have p50: "price_at resetDefaults (pS resetDefaults) (pT resetDefaults) (psigma resetDefaults) 50
      = Inr (crr_value 100 100 1 0.05 0.2 50 ''call'' ''european'' 0.02)"
    using price_n_defaults[of 50] by (simp add: price_n_def isInteger_def)
  have "convergence_loop resetDefaults 60 tol 50 (50 + 50)
          (crr_value 100 100 1 0.05 0.2 50 ''call'' ''european'' 0.02)
          [(50, crr_value 100 100 1 0.05 0.2 50 ''call'' ''european'' 0.02)]
      = Some (Inr \<lparr>cr_price = crr_value 100 100 1 0.05 0.2 50 ''call'' ''european'' 0.02,
                 cr_n = 60,
                 cr_trail = [(50, crr_value 100 100 1 0.05 0.2 50 ''call'' ''european'' 0.02)]\<rparr>)"
    by (subst convergence_loop.simps) simp
  then show ?thesis
    by (simp add: priceWithConvergence_def p50)
qed

subsection \<open>The pricer on a parameter object\<close>

lemma params_of_update:
  "params_of S (pK a) T (pr a) sig n (option_type a) (exercise_type a) (pq a)
   = a\<lparr>pS := S, pT := T, psigma := sig, pn := n\<rparr>"
  by (cases a) (simp add: params_of_def)

lemma price_at_Inr_iff:
  "price_at a S T sig n = Inr v \<longleftrightarrow>
     validateInputs (a\<lparr>pS := S, pT := T, psigma := sig, pn := n\<rparr>) = Inr () \<and> sig > 0
     \<and> \<bar>pr a - pq a\<bar> * crr_dt T n \<le> sig * sqrt (crr_dt T n)
     \<and> v = crr_value S (pK a) T (pr a) sig n (option_type a) (exercise_type a) (pq a)"
proof (cases "validateInputs (a\<lparr>pS := S, pT := T, psigma := sig, pn := n\<rparr>) = Inr ()")
  case False
  then show ?thesis by (simp add: price_at_def bop_Inr_iff params_of_update)
next
  case True
  then have v: "sig \<ge> 0" "T > 0" "n > 0"
    by (simp_all add: validate_iff)
  show ?thesis
  proof (cases "sig = 0")
    case True
    then show ?thesis
      using crr_u_eq_d_iff[OF v] by (simp add: price_at_def bop_Inr_iff)
  next
    case False
    then have pos: "sig > 0" using v by simp
    show ?thesis
      using crr_u_eq_d_iff[OF v] crr_p_range[OF pos v(2,3), of "pr a" "pq a"] True pos
      by (auto simp: price_at_def bop_Inr_iff params_of_update)
  qed
qed

lemma rates_arbitrage_free:
  assumes "0 < dt" "dt \<le> 1"
  shows "\<bar>0.05 - 0.02\<bar> * dt \<le> 0.2 * sqrt dt"
proof -
  have "dt \<le> sqrt dt"
    using assms by (intro le_sqrt_unit) simp_all
  with assms show ?thesis by simp
qed

lemma price_at_defaults:
  assumes "0 < S" "0 < T" "T \<le> 200"
  shows "price_at resetDefaults S T 0.2 200
         = Inr (crr_value S 100 T 0.05 0.2 200 ''call'' ''european'' 0.02)"
proof -
  have "\<bar>0.05 - 0.02\<bar> * crr_dt T 200 \<le> 0.2 * sqrt (crr_dt T 200)"
    using assms by (intro rates_arbitrage_free) (simp_all add: crr_dt_def)
  then show ?thesis
    using assms
    by (simp add: price_at_Inr_iff resetDefaults_def validate_iff isInteger_def)
qed

subsection \<open>The loop of the implied-volatility solver\<close>

lemma price_at_mid_ok:
  assumes "price_at a S T lo n = Inr pl" "price_at a S T hi n = Inr ph"
  shows "\<exists>pm. price_at a S T (0.5 * (lo + hi)) n = Inr pm"
proof -
  define s where "s = sqrt (crr_dt T n)"
  define c where "c = \<bar>pr a - pq a\<bar> * crr_dt T n"
  have lo: "validateInputs (a\<lparr>pS := S, pT := T, psigma := lo, pn := n\<rparr>) = Inr ()" "lo > 0"
    "c \<le> lo * s"
    using assms(1) by (simp_all add: price_at_Inr_iff s_def c_def)
  have hi: "hi > 0" "c \<le> hi * s"
    using assms(2) by (simp_all add: price_at_Inr_iff s_def c_def)
  have "validateInputs (a\<lparr>pS := S, pT := T, psigma := 0.5 * (lo + hi), pn := n\<rparr>) = Inr ()"
    using lo(1,2) hi(1) by (simp add: validate_iff)
  moreover have "0.5 * (lo + hi) > 0" using lo(2) hi(1) by simp
  moreover have "c \<le> 0.5 * (lo + hi) * s"
    using lo(3) hi(2) by (simp add: algebra_simps)
  ultimately show ?thesis
    by (simp add: price_at_Inr_iff s_def c_def)
qed

lemma iv_loop_returns:
  "\<exists>pl. price_at a (pS a) (pT a) low (pn a) = Inr pl \<Longrightarrow>
   \<exists>ph. price_at a (pS a) (pT a) high (pn a) = Inr ph \<Longrightarrow>
   \<exists>v. iv_loop a marketPrice tol maxIter i low high = Inr v"
proof (induction a marketPrice tol maxIter i low high rule: iv_loop.induct)
  case (1 a marketPrice tol maxIter i low high)
  show ?case
  proof (cases "real i < maxIter")
    case False
    then have "iv_loop a marketPrice tol maxIter i low high = Inr (0.5 * (low + high))"
      by (subst iv_loop.simps) simp
    then show ?thesis by blast
  next
    case True
    obtain pm where pm: "price_at a (pS a) (pT a) (0.5 * (low + high)) (pn a) = Inr pm"
      using "1.prems" price_at_mid_ok by blast
    show ?thesis
    proof (cases "\<bar>pm - marketPrice\<bar> \<le> tol")
      case met: True
      with True pm have "iv_loop a marketPrice tol maxIter i low high = Inr (0.5 * (low + high))"
        by (subst iv_loop.simps) simp
      then show ?thesis by blast
    next
      case notmet: False
      show ?thesis
      proof (cases "pm < marketPrice")
        case up: True
        have "\<exists>v. iv_loop a marketPrice tol maxIter (i + 1) (0.5 * (low + high)) high = Inr v"
          using "1.IH"(1)[OF True pm notmet up] pm "1.prems"(2) by blast
        then show ?thesis
          using True pm notmet up by (subst iv_loop.simps) simp
      next
        case down: False
        have "\<exists>v. iv_loop a marketPrice tol maxIter (i + 1) low (0.5 * (low + high)) = Inr v"
          using "1.IH"(2)[OF True pm notmet down] pm "1.prems"(1) by blast
        then show ?thesis
          using True pm notmet down by (subst iv_loop.simps) simp
      qed
    qed
  qed
qed

lemma iv_loop_result:
  "iv_loop a mp tol maxIter i low high = Inr v \<Longrightarrow>
     (\<exists>k. real (i + k) < maxIter
         \<and> iv_met a mp tol ((iv_narrow a mp ^^ k) (low, high))
         \<and> v = iv_mid ((iv_narrow a mp ^^ k) (low, high)))
   \<or> ((\<forall>k. real (i + k) < maxIter \<longrightarrow> \<not> iv_met a mp tol ((iv_narrow a mp ^^ k) (low, high)))
       \<and> v = iv_mid ((iv_narrow a mp ^^ (nat \<lceil>maxIter\<rceil> - i)) (low, high)))"
proof (induction a mp tol maxIter i low high rule: iv_loop.induct)
  case (1 a mp tol maxIter i low high)
  let ?b = "(low, high)"
  let ?mid = "0.5 * (low + high)"
  have mid: "iv_mid ?b = ?mid" by (simp add: iv_mid_def)
  show ?case
  proof (cases "real i < maxIter")
    case False
    then have "iv_loop a mp tol maxIter i low high = Inr ?mid"
      by (subst iv_loop.simps) simp
    with "1.prems" have v: "v = ?mid" by simp
    have "nat \<lceil>maxIter\<rceil> - i = 0" using False by linarith
    moreover have "\<forall>k. \<not> real (i + k) < maxIter" using False by auto
    ultimately show ?thesis using v mid by simp
  next
    case True
    show ?thesis
    proof (cases "price_at a (pS a) (pT a) ?mid (pn a)")
      case (Inl e)
      with True have "iv_loop a mp tol maxIter i low high = Inl e"
        by (subst iv_loop.simps) simp
      with "1.prems" show ?thesis by simp
    next
      case (Inr pm)
      show ?thesis
      proof (cases "\<bar>pm - mp\<bar> \<le> tol")
        case met: True
        with True Inr have "iv_loop a mp tol maxIter i low high = Inr ?mid"
          by (subst iv_loop.simps) simp
        with "1.prems" have v: "v = ?mid" by simp
        have "iv_met a mp tol ?b" using Inr met by (simp add: iv_met_def mid)
        then have "real (i + 0) < maxIter \<and> iv_met a mp tol ((iv_narrow a mp ^^ 0) ?b)
            \<and> v = iv_mid ((iv_narrow a mp ^^ 0) ?b)"
          using True v mid by simp
        then show ?thesis by blast
      next
        case notmet: False
        define b' where "b' = iv_narrow a mp ?b"
        have b': "b' = (if pm < mp then (?mid, high) else (low, ?mid))"
          using Inr by (simp add: b'_def iv_narrow_def mid)
        have step: "iv_loop a mp tol maxIter i low high
            = iv_loop a mp tol maxIter (i + 1) (fst b') (snd b')"
          using True Inr notmet by (subst iv_loop.simps) (simp add: b')
        have IH: "(\<exists>k. real (i + 1 + k) < maxIter
              \<and> iv_met a mp tol ((iv_narrow a mp ^^ k) b')
              \<and> v = iv_mid ((iv_narrow a mp ^^ k) b'))
            \<or> ((\<forall>k. real (i + 1 + k) < maxIter \<longrightarrow> \<not> iv_met a mp tol ((iv_narrow a mp ^^ k) b'))
               \<and> v = iv_mid ((iv_narrow a mp ^^ (nat \<lceil>maxIter\<rceil> - (i + 1))) b'))"
        proof (cases "pm < mp")
          case up: True
          then show ?thesis
            using "1.IH"(1)[OF True Inr notmet up] "1.prems" step b' by simp
        next
          case down: False
          then show ?thesis
            using "1.IH"(2)[OF True Inr notmet down] "1.prems" step b' by simp
        qed
        have shift: "(iv_narrow a mp ^^ k) b' = (iv_narrow a mp ^^ Suc k) ?b" for k
          by (simp add: b'_def funpow_swap1)
        have notmet_b: "\<not> iv_met a mp tol ?b"
          using Inr notmet by (simp add: iv_met_def mid)
        from IH show ?thesis
        proof
          assume "\<exists>k. real (i + 1 + k) < maxIter
              \<and> iv_met a mp tol ((iv_narrow a mp ^^ k) b')
              \<and> v = iv_mid ((iv_narrow a mp ^^ k) b')"
          then obtain k where k: "real (i + 1 + k) < maxIter"
            "iv_met a mp tol ((iv_narrow a mp ^^ k) b')" "v = iv_mid ((iv_narrow a mp ^^ k) b')"
            by blast
          have "real (i + Suc k) < maxIter
              \<and> iv_met a mp tol ((iv_narrow a mp ^^ Suc k) ?b)
              \<and> v = iv_mid ((iv_narrow a mp ^^ Suc k) ?b)"
            using k unfolding shift by simp
          then show ?thesis by blast
        next
          assume ex: "(\<forall>k. real (i + 1 + k) < maxIter \<longrightarrow> \<not> iv_met a mp tol ((iv_narrow a mp ^^ k) b'))
               \<and> v = iv_mid ((iv_narrow a mp ^^ (nat \<lceil>maxIter\<rceil> - (i + 1))) b')"
          have none: "\<forall>k. real (i + k) < maxIter \<longrightarrow> \<not> iv_met a mp tol ((iv_narrow a mp ^^ k) ?b)"
          proof (intro allI impI)
            fix k assume lt: "real (i + k) < maxIter"
            show "\<not> iv_met a mp tol ((iv_narrow a mp ^^ k) ?b)"
            proof (cases k)
              case 0
              then show ?thesis using notmet_b by simp
            next
              case (Suc j)
              with lt have "real (i + 1 + j) < maxIter" by simp
              with ex have "\<not> iv_met a mp tol ((iv_narrow a mp ^^ j) b')" by blast
              then show ?thesis unfolding shift Suc .
            qed
          qed
          have "nat \<lceil>maxIter\<rceil> - i = Suc (nat \<lceil>maxIter\<rceil> - (i + 1))"
            using True by linarith
          then have "v = iv_mid ((iv_narrow a mp ^^ (nat \<lceil>maxIter\<rceil> - i)) ?b)"
            using ex shift by simp
          with none show ?thesis by blast
        qed
      qed
    qed
  qed
qed

lemma real_less_iff_nat_ceiling: "real k < x \<longleftrightarrow> k < nat \<lceil>x\<rceil>"
  by linarith

lemma pricer_errors:
  "binomialOptionPricing S K T r sigma n kind style q = Inl e \<Longrightarrow>
   e \<noteq> InvalidTarget \<and> e \<noteq> NotBracketed"
  by (auto simp: binomialOptionPricing_def validateInputs_def riskNeutralProb_def Let_def
      split: if_splits sum.splits)

subsection \<open>Two inputs of the solver\<close>

lemma exp_neg_twentieth: "exp (- (0.05::real)) \<le> 0.99"
proof -
  have "1 + (0.05::real) \<le> exp 0.05" by (rule exp_ge_add_one_self)
  then have "1 / exp (0.05::real) \<le> 1 / (1 + 0.05)"
    by (intro divide_left_mono) simp_all
  also have "\<dots> \<le> (0.99::real)" by simp
  finally show ?thesis by (simp add: exp_minus inverse_eq_divide)
qed

lemma deep_put_value:
  assumes "sig > 0"
  shows "crr_value 1 100 1 0.05 sig 1 ''put'' ''american'' 0.05 = 99"
proof -
  define u where "u = crr_u sig 1 1"
  define d where "d = crr_d sig 1 1"
  define p where "p = crr_p 0.05 0.05 sig 1 1"
  define disc where "disc = crr_discount 0.05 1 1"
  define t0 where "t0 = crr_payoff ''put'' 100 (d :: real)"
  define t1 where "t1 = crr_payoff ''put'' 100 (u :: real)"
  have p: "0 \<le> p" "p \<le> 1"
    using crr_p_range[of sig 1 1 "0.05" "0.05"] assms by (simp_all add: p_def crr_dt_def)
  have ud: "0 < u" "0 < d"
    using assms by (simp_all add: u_def d_def crr_u_exp crr_d_exp)
  have t: "t0 \<le> 100" "t1 \<le> 100"
    using ud by (simp_all add: t0_def t1_def crr_payoff_def)
  have disc: "0 < disc" "disc \<le> 0.99"
    using exp_neg_twentieth by (simp_all add: disc_def crr_discount_def crr_dt_def)
  have "p * t1 + (1 - p) * t0 \<le> p * 100 + (1 - p) * 100"
    using p t by (intro add_mono mult_left_mono) simp_all
  then have "p * t1 + (1 - p) * t0 \<le> 100" by (simp add: algebra_simps)
  then have "disc * (p * t1 + (1 - p) * t0) \<le> disc * 100"
    using disc(1) by (intro mult_left_mono) simp_all
  then have hold: "disc * (p * t1 + (1 - p) * t0) \<le> 99"
    using disc(2) by simp
  have "crr_value 1 100 1 0.05 sig 1 ''put'' ''american'' 0.05
      = max (disc * (p * t1 + (1 - p) * t0)) (crr_payoff ''put'' 100 1)"
    by (simp add: crr_value_def Let_def crr_layer_nth crr_terminal_def
        u_def d_def p_def disc_def t0_def t1_def)
  also have "\<dots> = 99"
    using hold by (simp add: crr_payoff_def)
  finally show ?thesis .
qed

lemma deep_put_price:
  assumes "sig > 0"
  shows "price_at deep_put (pS deep_put) (pT deep_put) sig (pn deep_put) = Inr 99"
  using assms deep_put_value[OF assms]
  by (simp add: price_at_Inr_iff deep_put_def validate_iff isInteger_def crr_dt_def)

lemma deep_put_implied:
  "impliedVolatility_default 99 deep_put = Inr 2.5000005"
proof -
  have "iv_loop deep_put 99 tol 100 0 0.000001 5 = Inr (0.5 * (0.000001 + 5))"
    if "0 \<le> tol" for tol :: real
    using that deep_put_price[of "0.5 * (0.000001 + 5)"]
    by (subst iv_loop.simps) simp
  then show ?thesis
    using deep_put_price[of "0.000001"] deep_put_price[of 5]
    by (simp add: impliedVolatility_default_def impliedVolatility_def)
qed

lemma defaults_low_vol:
  "binomialOptionPricing 100 100 1 0.05 0.000001 200 ''call'' ''european'' 0.02
     = Inl (ArbitrageViolation (crr_p 0.05 0.02 0.000001 1 200))"
proof -
  have v: "validateInputs (params_of 100 100 1 0.05 0.000001 200 ''call'' ''european'' 0.02) = Inr ()"
    by (simp add: validate_iff params_of_def isInteger_def)
  have "sqrt (1 / 200) \<le> 1"
    by simp
  then have "\<not> 150 \<le> sqrt (1 / 200)"
    by linarith
  then have "\<not> (\<bar>0.05 - 0.02\<bar> * (1 / 200) \<le> 0.000001 * sqrt (1 / 200))"
    by simp
  then have "\<not> (\<bar>0.05 - 0.02\<bar> * crr_dt 1 200 \<le> 0.000001 * sqrt (crr_dt 1 200))"
    unfolding crr_dt_def .
  then have "crr_p 0.05 0.02 0.000001 1 200 < 0 \<or> crr_p 0.05 0.02 0.000001 1 200 > 1"
    using crr_p_range[of "0.000001" 1 200 "0.05" "0.02"] by auto
  then show ?thesis
    unfolding bop_validated[OF v] by (auto simp: crr_u_eq_d_iff)
qed

subsection \<open>A call far out of the money, and steep rates\<close>









subsection \<open>Prices are not negative\<close>

lemma crr_payoff_nonneg: "0 \<le> crr_payoff kind K x"
  by (simp add: crr_payoff_def)

lemma crr_layer_nonneg:
  assumes "0 \<le> ldiscount c" "0 \<le> lp c" "lp c \<le> 1" "j \<le> i"
    and "0 \<le> A ! j" "0 \<le> A ! (j + 1)"
  shows "0 \<le> crr_layer c i A ! j"
proof -
  have "0 \<le> ldiscount c * (lp c * A ! (j + 1) + (1 - lp c) * A ! j)"
    using assms by (intro mult_nonneg_nonneg add_nonneg_nonneg) simp_all
  then show ?thesis
    using assms(4) by (simp add: crr_layer_nth max_def)
qed

lemma crr_induction_nonneg:
  assumes "0 \<le> ldiscount c" "0 \<le> lp c" "lp c \<le> 1"
  shows "(\<forall>j\<le>k. 0 \<le> A ! j) \<Longrightarrow> 0 \<le> crr_induction c k A ! 0"
proof (induction k arbitrary: A)
  case 0
  then show ?case by simp
next
  case (Suc k)
  have "\<forall>j\<le>k. 0 \<le> crr_layer c k A ! j"
    using Suc.prems by (auto intro!: crr_layer_nonneg assms)
  then show ?case using Suc.IH by simp
qed

lemma crr_value_nonneg:
  assumes "0 \<le> crr_p r q sigma T n" "crr_p r q sigma T n \<le> 1"
  shows "0 \<le> crr_value S K T r sigma n kind style q"
proof -
  define c where "c = \<lparr>lS = S, lK = K, lu = crr_u sigma T n, ld = crr_d sigma T n,
               ldiscount = crr_discount r T n, lp = crr_p r q sigma T n,
               loptionType = kind, lexerciseType = style\<rparr>"
  have le: "0 \<le> ldiscount c" "0 \<le> lp c" "lp c \<le> 1"
    using assms crr_discount_pos[of r T n] by (simp_all add: c_def)
  have "0 \<le> crr_induction c (nat \<lfloor>n\<rfloor>) (crr_terminal c (nat \<lfloor>n\<rfloor>)) ! 0"
    by (rule crr_induction_nonneg[OF le])
       (simp add: crr_terminal_def crr_payoff_nonneg del: upt_Suc)
  then show ?thesis
    by (simp add: crr_value_def c_def Let_def)
qed

lemma price_at_nonneg:
  assumes "price_at a S T sig n = Inr v"
  shows "0 \<le> v"
proof -
  from assms have "binomialOptionPricing S (pK a) T (pr a) sig n (option_type a)
      (exercise_type a) (pq a) = Inr v"
    by (simp add: price_at_def)
  then show ?thesis
    by (simp add: bop_Inr_iff crr_value_nonneg)
qed

subsection \<open>Bisection on a price that grows with the volatility\<close>

lemma price_increasingD:
  assumes "price_increasing a lo hi" "lo \<le> s1" "s1 < s2" "s2 \<le> hi"
  shows "\<exists>p1 p2. price_at a (pS a) (pT a) s1 (pn a) = Inr p1
                \<and> price_at a (pS a) (pT a) s2 (pn a) = Inr p2 \<and> p1 < p2"
  using assms unfolding price_increasing_def by blast

lemma iv_narrow_keeps:
  assumes inc: "price_increasing a lo hi"
    and target: "price_at a (pS a) (pT a) sig (pn a) = Inr target"
    and b: "lo \<le> fst b" "fst b \<le> sig" "sig \<le> snd b" "snd b \<le> hi" "fst b < snd b"
  shows "lo \<le> fst (iv_narrow a target b) \<and> fst (iv_narrow a target b) \<le> sig
       \<and> sig \<le> snd (iv_narrow a target b) \<and> snd (iv_narrow a target b) \<le> hi
       \<and> fst (iv_narrow a target b) < snd (iv_narrow a target b)
       \<and> snd (iv_narrow a target b) - fst (iv_narrow a target b) = (snd b - fst b) / 2"
proof -
  define mid where "mid = iv_mid b"
  have mid: "fst b < mid" "mid < snd b" "mid - fst b = (snd b - fst b) / 2"
    "snd b - mid = (snd b - fst b) / 2"
    using b(5) by (simp_all add: mid_def iv_mid_def field_simps)
  obtain pm where pm: "price_at a (pS a) (pT a) mid (pn a) = Inr pm"
    using price_increasingD[OF inc b(1) mid(1)] mid(2) b(4) by auto
  show ?thesis
  proof (cases "pm < target")
    case True
    have "mid \<le> sig"
    proof (rule ccontr)
      assume "\<not> mid \<le> sig"
      then have "sig < mid" by simp
      from price_increasingD[OF inc _ this] b mid pm target
      have "target < pm" by auto
      with True show False by simp
    qed
    moreover have "iv_narrow a target b = (mid, snd b)"
      using pm True by (simp add: iv_narrow_def mid_def)
    ultimately show ?thesis using b mid by simp
  next
    case False
    have "sig \<le> mid"
    proof (rule ccontr)
      assume "\<not> sig \<le> mid"
      then have "mid < sig" by simp
      from price_increasingD[OF inc _ this] b mid pm target
      have "pm < target" by auto
      with False show False by simp
    qed
    moreover have "iv_narrow a target b = (fst b, mid)"
      using pm False by (simp add: iv_narrow_def mid_def)
    ultimately show ?thesis using b mid by simp
  qed
qed

lemma iv_interval_keeps:
  assumes inc: "price_increasing a lo hi"
    and target: "price_at a (pS a) (pT a) sig (pn a) = Inr target"
    and s: "lo \<le> sig" "sig \<le> hi" "lo < hi"
  shows "lo \<le> fst (iv_interval a target lo hi k) \<and> fst (iv_interval a target lo hi k) \<le> sig
       \<and> sig \<le> snd (iv_interval a target lo hi k) \<and> snd (iv_interval a target lo hi k) \<le> hi
       \<and> fst (iv_interval a target lo hi k) < snd (iv_interval a target lo hi k)
       \<and> snd (iv_interval a target lo hi k) - fst (iv_interval a target lo hi k)
           = (hi - lo) / 2 ^ k"
proof (induction k)
  case 0
  then show ?case using s by (simp add: iv_interval_def)
next
  case (Suc k)
  have step: "iv_interval a target lo hi (Suc k) = iv_narrow a target (iv_interval a target lo hi k)"
    by (simp add: iv_interval_def)
  from Suc.IH have b: "lo \<le> fst (iv_interval a target lo hi k)"
    "fst (iv_interval a target lo hi k) \<le> sig" "sig \<le> snd (iv_interval a target lo hi k)"
    "snd (iv_interval a target lo hi k) \<le> hi"
    "fst (iv_interval a target lo hi k) < snd (iv_interval a target lo hi k)"
    and w: "snd (iv_interval a target lo hi k) - fst (iv_interval a target lo hi k)
           = (hi - lo) / 2 ^ k"
    by simp_all
  show ?case
    unfolding step using iv_narrow_keeps[OF inc target b] w by simp
qed

lemma iv_mid_near:
  assumes "fst b \<le> sig" "sig \<le> snd b"
  shows "\<bar>iv_mid b - sig\<bar> \<le> (snd b - fst b) / 2"
  using assms by (simp add: iv_mid_def abs_le_iff field_simps)

subsection \<open>A european call at the money on a tree of one step\<close>

lemma one_step_call_value:
  assumes "0 < s" "0 < x"
  shows "crr_value x x 1 0 s 1 ''call'' ''european'' 0 = x * (exp s - 1) / (exp s + 1)"
proof -
  define u where "u = exp s"
  have u: "1 < u" using assms by (simp add: u_def)
  have cu: "crr_u s 1 1 = u" and cd: "crr_d s 1 1 = 1 / u"
    using assms by (simp_all add: crr_u_def crr_d_def crr_dt_def u_def)
  have cp: "crr_p 0 0 s 1 1 = (1 - 1 / u) / (u - 1 / u)"
    by (simp add: crr_p_def cu cd)
  have "x * 1 \<le> x * u" using u assms by (intro mult_left_mono) simp_all
  then have up: "crr_payoff ''call'' x (x * u) = x * (u - 1)"
    by (simp add: crr_payoff_def algebra_simps)
  have "x / u \<le> x" using u assms by (simp add: field_simps)
  then have down: "crr_payoff ''call'' x (x / u) = 0"
    by (simp add: crr_payoff_def)
  have "crr_value x x 1 0 s 1 ''call'' ''european'' 0
      = (1 - 1 / u) / (u - 1 / u) * (x * (u - 1))"
    using up down
    by (simp add: crr_value_def Let_def crr_layer_nth crr_terminal_def cu cd cp
        crr_discount_def)
  also have "\<dots> = x * (u - 1) / (u + 1)"
  proof -
    have "u - 1 / u = (u - 1) * (u + 1) / u" "1 - 1 / u = (u - 1) / u"
      using u by (simp_all add: field_simps)
    then show ?thesis using u by simp
  qed
  finally show ?thesis by (simp add: u_def)
qed

lemma atm_call_price:
  assumes "0 < s"
  shows "price_at atm_call (pS atm_call) (pT atm_call) s (pn atm_call)
         = Inr (100 * (exp s - 1) / (exp s + 1))"
  using assms one_step_call_value[OF assms, of 100]
  by (simp add: price_at_Inr_iff atm_call_def validate_iff isInteger_def crr_dt_def)

lemma unit_call_price:
  assumes "0 < s"
  shows "price_at unit_call (pS unit_call) (pT unit_call) s (pn unit_call)
         = Inr ((exp s - 1) / (exp s + 1))"
  using assms one_step_call_value[OF assms, of 1]
  by (simp add: price_at_Inr_iff unit_call_def atm_call_def validate_iff isInteger_def crr_dt_def)

lemma exp_ratio_mono:
  fixes s1 s2 :: real
  assumes "s1 < s2"
  shows "(exp s1 - 1) / (exp s1 + 1) < (exp s2 - 1) / (exp s2 + 1)"
proof -
  have "exp s1 < exp s2" using assms by simp
  then have "(exp s1 - 1) * (exp s2 + 1) < (exp s2 - 1) * (exp s1 + 1)"
    by (simp add: algebra_simps)
  then show ?thesis
    by (simp add: divide_less_eq less_divide_eq add_pos_pos)
qed

lemma exp_ratio_gap:
  fixes a b :: real
  assumes "a \<le> b"
  shows "(exp b - 1) / (exp b + 1) - (exp a - 1) / (exp a + 1) \<le> (exp (b - a) - 1) / 2"
proof -
  define u where "u = exp a"
  define w where "w = exp (b - a)"
  have u: "0 < u" by (simp add: u_def)
  have w: "1 \<le> w" using assms by (simp add: w_def)
  have eb: "exp b = u * w"
    unfolding u_def w_def by (simp add: exp_add[symmetric])
  have pos: "0 < u * w + 1" "0 < u + 1"
    using u w by (simp_all add: add_pos_pos)
  have eq: "(u * w - 1) / (u * w + 1) - (u - 1) / (u + 1)
      = 2 * u * (w - 1) / ((u * w + 1) * (u + 1))"
    using pos by (simp add: field_simps)
  have "u * 1 \<le> u * w" using u w by (intro mult_left_mono) simp_all
  then have "(u + 1) * (u + 1) \<le> (u * w + 1) * (u + 1)"
    using pos by (intro mult_right_mono) simp_all
  moreover have "0 \<le> (u - 1) * (u - 1)" by simp
  then have "4 * u \<le> (u + 1) * (u + 1)" by (simp add: algebra_simps)
  ultimately have den: "4 * u \<le> (u * w + 1) * (u + 1)" by simp
  have "2 * u * (w - 1) / ((u * w + 1) * (u + 1)) \<le> 2 * u * (w - 1) / (4 * u)"
    using den u w pos by (intro divide_left_mono) simp_all
  also have "\<dots> = (w - 1) / 2" using u by simp
  finally show ?thesis unfolding eb u_def[symmetric] w_def[symmetric] eq .
qed

lemma atm_call_increasing:
  assumes "0 < lo"
  shows "price_increasing atm_call lo hi"
  unfolding price_increasing_def
proof (intro allI impI)
  fix s1 s2 :: real
  assume s: "lo \<le> s1 \<and> s1 < s2 \<and> s2 \<le> hi"
  then have pos: "0 < s1" "0 < s2" using assms by simp_all
  have "(exp s1 - 1) / (exp s1 + 1) < (exp s2 - 1) / (exp s2 + 1)"
    using s by (intro exp_ratio_mono) simp
  then have "100 * ((exp s1 - 1) / (exp s1 + 1)) < 100 * ((exp s2 - 1) / (exp s2 + 1))"
    by (intro mult_strict_left_mono) simp_all
  then have "100 * (exp s1 - 1) / (exp s1 + 1) < 100 * (exp s2 - 1) / (exp s2 + 1)"
    by (simp only: times_divide_eq_right)
  with atm_call_price[OF pos(1)] atm_call_price[OF pos(2)]
  show "\<exists>p1 p2. price_at atm_call (pS atm_call) (pT atm_call) s1 (pn atm_call) = Inr p1
         \<and> price_at atm_call (pS atm_call) (pT atm_call) s2 (pn atm_call) = Inr p2 \<and> p1 < p2"
    by blast
qed

lemma unit_call_implied:
  "impliedVolatility ((exp 0.2999985 - 1) / (exp 0.2999985 + 1)) unit_call 0.1 0.5 0.000001 100
     = Inr 0.3"
proof -
  let ?f = "\<lambda>s :: real. (exp s - 1) / (exp s + 1)"
  let ?t = "?f 0.2999985"
  have t: "0 < ?t" by (intro divide_pos_pos) (simp_all add: add_pos_pos)
  have lo: "?f 0.1 \<le> ?t" by (intro less_imp_le exp_ratio_mono) simp
  have hi: "?t \<le> ?f 0.5" by (intro less_imp_le exp_ratio_mono) simp
  have mid: "?t \<le> ?f 0.3" by (intro less_imp_le exp_ratio_mono) simp
  have g1: "?f 0.3 - ?t \<le> (exp (0.3 - 0.2999985) - 1) / 2"
    by (rule exp_ratio_gap) simp
  have "exp (0.3 - 0.2999985 :: real) \<le> 1 + (0.3 - 0.2999985) + (0.3 - 0.2999985)\<^sup>2"
    by (intro exp_bound) simp_all
  then have g2: "(exp (0.3 - 0.2999985 :: real) - 1) / 2 \<le> 0.000001"
    by (simp add: power2_eq_square)
  have gap: "?f 0.3 - ?t \<le> 0.000001"
    using g1 g2 by (rule order_trans)
  have near: "\<bar>?f 0.3 - ?t\<bar> \<le> 0.000001" using mid gap by linarith
  have loop: "iv_loop unit_call ?t 0.000001 100 0 0.1 0.5 = Inr 0.3"
    using near unit_call_price[of "0.3"] by (subst iv_loop.simps) simp
  show ?thesis
    using t lo hi loop unit_call_price[of "0.1"] unit_call_price[of "0.5"]
    by (simp add: impliedVolatility_def)
qed

subsection \<open>The price of the form's defaults is positive\<close>

lemma crr_induction_lower:
  assumes "lexerciseType c = ''european''" "0 \<le> ldiscount c" "0 \<le> lp c" "lp c \<le> 1"
  shows "(\<forall>j\<le>k. 0 \<le> A ! j) \<Longrightarrow> (ldiscount c * lp c) ^ k * A ! k \<le> crr_induction c k A ! 0"
proof (induction k arbitrary: A)
  case 0
  then show ?case by simp
next
  case (Suc k)
  let ?B = "crr_layer c k A"
  have nonneg: "\<forall>j\<le>k. 0 \<le> ?B ! j"
    using Suc.prems by (auto intro!: crr_layer_nonneg assms)
  have "0 \<le> ldiscount c * ((1 - lp c) * A ! k)"
    using assms(2,4) Suc.prems by (intro mult_nonneg_nonneg) simp_all
  then have "ldiscount c * lp c * A ! (Suc k) \<le> ?B ! k"
    using assms(1) by (simp add: crr_layer_nth algebra_simps)
  then have "(ldiscount c * lp c) ^ k * (ldiscount c * lp c * A ! (Suc k))
      \<le> (ldiscount c * lp c) ^ k * ?B ! k"
    using assms(2,3) by (intro mult_left_mono) simp_all
  also have "\<dots> \<le> crr_induction c k ?B ! 0"
    using Suc.IH[OF nonneg] .
  finally show ?case by (simp add: algebra_simps)
qed

lemma defaults_value_pos:
  "0 < crr_value 100 100 1 0.05 0.2 200 ''call'' ''european'' 0.02"
proof -
  define u where "u = crr_u 0.2 1 200"
  define d where "d = crr_d 0.2 1 200"
  define p where "p = crr_p 0.05 0.02 0.2 1 200"
  define disc where "disc = crr_discount 0.05 1 200"
  define c where "c = \<lparr>lS = 100, lK = 100, lu = u, ld = d, ldiscount = disc, lp = p,
               loptionType = ''call'', lexerciseType = ''european''\<rparr>"
  have s: "0 < 0.2 * sqrt (crr_dt 1 200)" by (simp add: crr_dt_def)
  have u: "1 < u" using s by (simp add: u_def crr_u_exp)
  have d: "d < 1" using s by (simp add: d_def crr_d_exp)
  have du: "d < u" using u d by simp
  have pr: "0 \<le> p" "p \<le> 1"
    using defaults_arbitrage_free[of 200] crr_p_range[of "0.2" 1 200 "0.05" "0.02"]
    by (simp_all add: p_def)
  have "d < exp ((0.05 - 0.02) * crr_dt 1 200)"
    using d by (intro less_le_trans[OF d]) (simp add: crr_dt_def)
  then have "0 < (exp ((0.05 - 0.02) * crr_dt 1 200) - d) / (u - d)"
    using du by (intro divide_pos_pos) simp_all
  then have p0: "0 < p"
    unfolding p_def crr_p_def u_def d_def by (simp add: Let_def)
  have disc: "0 < disc" by (simp add: disc_def crr_discount_pos)
  have top: "crr_terminal c 200 ! 200 = 100 * u ^ 200 - 100"
  proof -
    have "1 < u ^ 200" using u by (intro one_less_power) simp_all
    then show ?thesis
      by (simp add: crr_terminal_def c_def crr_payoff_def nth_append del: upt_Suc)
  qed
  have "1 < u ^ 200" using u by (intro one_less_power) simp_all
  then have "0 < (disc * p) ^ 200 * crr_terminal c 200 ! 200"
    using disc p0 unfolding top by (intro mult_pos_pos zero_less_power) simp_all
  also have "\<dots> \<le> crr_induction c 200 (crr_terminal c 200) ! 0"
    using crr_induction_lower[of c 200 "crr_terminal c 200"] disc pr
    by (simp add: c_def crr_terminal_def crr_payoff_nonneg del: upt_Suc)
  finally show ?thesis
    by (simp add: crr_value_def Let_def c_def u_def d_def p_def disc_def)
qed

lemma defaults_round_trip:
  "price_at resetDefaults (pS resetDefaults) (pT resetDefaults) 0.2 (pn resetDefaults)
     = Inr (crr_value 100 100 1 0.05 0.2 200 ''call'' ''european'' 0.02)
   \<and> impliedVolatility_default (crr_value 100 100 1 0.05 0.2 200 ''call'' ''european'' 0.02)
        resetDefaults
     = Inl (ArbitrageViolation (crr_p 0.05 0.02 0.000001 1 200))"
proof -
  have "price_at resetDefaults 100 1 0.2 200
      = Inr (crr_value 100 100 1 0.05 0.2 200 ''call'' ''european'' 0.02)"
    by (rule price_at_defaults) simp_all
  moreover have "price_at resetDefaults 100 1 0.000001 200
      = Inl (ArbitrageViolation (crr_p 0.05 0.02 0.000001 1 200))"
    using defaults_low_vol by (simp add: price_at_def resetDefaults_def)
  ultimately show ?thesis
    using defaults_value_pos
    by (simp add: impliedVolatility_default_def impliedVolatility_def resetDefaults_def)
qed

section \<open>The claims\<close>

subsection \<open>The lattice pricer and the validator\<close>

text \<open>
  C1. On parameters the validator accepts, with an up factor different from the down
  factor and a risk-neutral probability in \<open>[0, 1]\<close>, \<open>binomialOptionPricing\<close> returns
  the CRR value of the specification: \<open>dt = T / n\<close>, \<open>discount = exp (- r dt)\<close>, the
  terminal payoffs at \<open>j = 0, \<dots>, n\<close>, and the backward induction from layer \<open>n - 1\<close>
  down to layer \<open>0\<close>, each layer computed from the layer after it, with the maximum of
  continuation and intrinsic value for the american style; the result is entry \<open>0\<close>.
  The array the source updates in place holds, below index \<open>i + 1\<close>, the layer \<open>i\<close> of
  that induction.
\<close>

theorem binomialOptionPricing_is_crr_value:
  assumes "validateInputs (params_of S K T r sigma n kind style q) = Inr ()"
    and "crr_u sigma T n \<noteq> crr_d sigma T n"
    and "0 \<le> crr_p r q sigma T n" and "crr_p r q sigma T n \<le> 1"
  shows "binomialOptionPricing S K T r sigma n kind style q =
         Inr (crr_value S K T r sigma n kind style q)"
  using assms by (simp add: bop_validated)

theorem binomialOptionPricing_is_crr_value_witness:
  "validateInputs (params_of 100 100 1 0.05 0.2 200 ''put'' ''american'' 0.02) = Inr ()
   \<and> crr_u 0.2 1 200 \<noteq> crr_d 0.2 1 200
   \<and> 0 \<le> crr_p 0.05 0.02 0.2 1 200 \<and> crr_p 0.05 0.02 0.2 1 200 \<le> 1
   \<and> binomialOptionPricing 100 100 1 0.05 0.2 200 ''put'' ''american'' 0.02 =
       Inr (crr_value 100 100 1 0.05 0.2 200 ''put'' ''american'' 0.02)"
proof -
  have v: "validateInputs (params_of 100 100 1 0.05 0.2 200 ''put'' ''american'' 0.02) = Inr ()"
    by (simp add: validate_iff params_of_def isInteger_def)
  have u: "crr_u 0.2 1 200 \<noteq> crr_d 0.2 1 200"
    by (simp add: crr_u_eq_d_iff)
  have p: "0 \<le> crr_p 0.05 0.02 0.2 1 200 \<and> crr_p 0.05 0.02 0.2 1 200 \<le> 1"
    using defaults_arbitrage_free[of 200] by (simp add: crr_p_range)
  show ?thesis
    using v u p binomialOptionPricing_is_crr_value[OF v u] by simp
qed

text \<open>
  C2. The validator raises \<open>InvalidParameter\<close> exactly when one of the rules is
  violated, it reports the first violated rule in the fixed order (S and K, T, n, sigma, q,
  option kind, exercise style), and otherwise returns with no error; it is a function of its
  argument and has nothing to modify. On the reals \<open>\<not> 0 < S\<close> is \<open>S \<le> 0\<close>; a NaN, which
  the model does not have, fails the tests on S, K, T and n and passes those on sigma
  and q.
\<close>

theorem validateInputs_first_violation:
  "validateInputs a =
     (if pS a \<le> 0 \<or> pK a \<le> 0 then Inl (InvalidParameter ''S and K must be positive.'')
      else if pT a \<le> 0 then Inl (InvalidParameter ''T must be positive.'')
      else if pn a \<le> 0 \<or> \<not> isInteger (pn a)
        then Inl (InvalidParameter ''n must be a positive integer.'')
      else if psigma a < 0 then Inl (InvalidParameter ''sigma must be non-negative.'')
      else if pq a < 0 then Inl (InvalidParameter ''q must be non-negative.'')
      else if option_type a \<notin> {''call'', ''put''}
        then Inl (InvalidParameter ''Option type invalid.'')
      else if exercise_type a \<notin> {''european'', ''american''}
        then Inl (InvalidParameter ''Exercise type invalid.'')
      else Inr ())
   \<and> ((\<exists>msg. validateInputs a = Inl (InvalidParameter msg)) \<longleftrightarrow>
        pS a \<le> 0 \<or> pK a \<le> 0 \<or> pT a \<le> 0 \<or> pn a \<le> 0 \<or> \<not> isInteger (pn a) \<or> psigma a < 0
        \<or> pq a < 0 \<or> option_type a \<notin> {''call'', ''put''}
        \<or> exercise_type a \<notin> {''european'', ''american''})
   \<and> (\<forall>e. validateInputs a = Inl e \<longrightarrow> (\<exists>msg. e = InvalidParameter msg))"
  by (auto simp: validateInputs_def array_includes_def)

theorem validateInputs_first_violation_witness:
  "validateInputs resetDefaults = Inr ()
   \<and> validateInputs (resetDefaults\<lparr>pK := 0, pT := 0, pn := 1 / 2\<rparr>)
       = Inl (InvalidParameter ''S and K must be positive.'')
   \<and> validateInputs (resetDefaults\<lparr>pn := 1 / 2, pq := - 1, option_type := ''swap''\<rparr>)
       = Inl (InvalidParameter ''n must be a positive integer.'')
   \<and> validateInputs (resetDefaults\<lparr>exercise_type := ''bermudan''\<rparr>)
       = Inl (InvalidParameter ''Exercise type invalid.'')"
  using validateInputs_first_violation[of resetDefaults]
    validateInputs_first_violation[of "resetDefaults\<lparr>pK := 0, pT := 0, pn := 1 / 2\<rparr>"]
    validateInputs_first_violation[of "resetDefaults\<lparr>pn := 1 / 2, pq := - 1, option_type := ''swap''\<rparr>"]
    validateInputs_first_violation[of "resetDefaults\<lparr>exercise_type := ''bermudan''\<rparr>"]
  by (simp add: resetDefaults_def isInteger_def)

text \<open>
  C3. On parameters the validator accepts, the pricer raises \<open>DegenerateTree\<close> when the
  up factor equals the down factor, which is so whenever \<open>sigma = 0\<close>; it raises
  \<open>ArbitrageViolation\<close> carrying the probability itself when that probability is outside
  \<open>[0, 1]\<close>; it returns a value in every other case; and it raises no other error.
\<close>

theorem binomialOptionPricing_errors:
  assumes "validateInputs (params_of S K T r sigma n kind style q) = Inr ()"
  shows "(crr_u sigma T n = crr_d sigma T n \<longrightarrow>
            binomialOptionPricing S K T r sigma n kind style q = Inl DegenerateTree)
       \<and> (sigma = 0 \<longrightarrow> binomialOptionPricing S K T r sigma n kind style q = Inl DegenerateTree)
       \<and> (crr_u sigma T n \<noteq> crr_d sigma T n
            \<and> (crr_p r q sigma T n < 0 \<or> crr_p r q sigma T n > 1) \<longrightarrow>
            binomialOptionPricing S K T r sigma n kind style q
              = Inl (ArbitrageViolation (crr_p r q sigma T n)))
       \<and> (crr_u sigma T n \<noteq> crr_d sigma T n
            \<and> 0 \<le> crr_p r q sigma T n \<and> crr_p r q sigma T n \<le> 1 \<longrightarrow>
            (\<exists>v. binomialOptionPricing S K T r sigma n kind style q = Inr v))
       \<and> (\<forall>e. binomialOptionPricing S K T r sigma n kind style q = Inl e \<longrightarrow>
            e = DegenerateTree \<or> e = ArbitrageViolation (crr_p r q sigma T n))"
proof -
  have v: "sigma \<ge> 0" "T > 0" "n > 0"
    using assms by (simp_all add: validate_iff params_of_def)
  have "sigma = 0 \<longrightarrow> crr_u sigma T n = crr_d sigma T n"
    using crr_u_eq_d_iff[OF v] by blast
  then show ?thesis
    unfolding bop_validated[OF assms] by auto
qed

theorem binomialOptionPricing_errors_witness:
  "binomialOptionPricing 100 100 1 0.05 0 200 ''call'' ''european'' 0.02 = Inl DegenerateTree
   \<and> binomialOptionPricing 100 100 1 0.05 0.000001 200 ''call'' ''european'' 0.02
       = Inl (ArbitrageViolation (crr_p 0.05 0.02 0.000001 1 200))
   \<and> (\<exists>v. binomialOptionPricing 100 100 1 0.05 0.2 200 ''call'' ''european'' 0.02 = Inr v)"
proof -
  have v: "validateInputs (params_of 100 100 1 0.05 sigma 200 ''call'' ''european'' 0.02) = Inr ()"
    if "sigma \<ge> 0" for sigma
    using that by (simp add: validate_iff params_of_def isInteger_def)
  have one: "binomialOptionPricing 100 100 1 0.05 0 200 ''call'' ''european'' 0.02 = Inl DegenerateTree"
    using binomialOptionPricing_errors[OF v[of 0]] by simp
  have "sqrt (1 / 200) \<le> 1"
    by simp
  then have "\<not> 150 \<le> sqrt (1 / 200)"
    by linarith
  then have "\<not> (\<bar>0.05 - 0.02\<bar> * (1 / 200) \<le> 0.000001 * sqrt (1 / 200))"
    by simp
  then have "\<not> (\<bar>0.05 - 0.02\<bar> * crr_dt 1 200 \<le> 0.000001 * sqrt (crr_dt 1 200))"
    unfolding crr_dt_def .
  then have out: "crr_p 0.05 0.02 0.000001 1 200 < 0 \<or> crr_p 0.05 0.02 0.000001 1 200 > 1"
    using crr_p_range[of "0.000001" 1 200 "0.05" "0.02"] by auto
  have two: "binomialOptionPricing 100 100 1 0.05 0.000001 200 ''call'' ''european'' 0.02
       = Inl (ArbitrageViolation (crr_p 0.05 0.02 0.000001 1 200))"
    using binomialOptionPricing_errors[OF v[of "0.000001"]] out
    by (auto simp: crr_u_eq_d_iff)
  have "0 \<le> crr_p 0.05 0.02 0.2 1 200 \<and> crr_p 0.05 0.02 0.2 1 200 \<le> 1"
    using defaults_arbitrage_free[of 200] by (simp add: crr_p_range)
  then have three: "\<exists>v. binomialOptionPricing 100 100 1 0.05 0.2 200 ''call'' ''european'' 0.02 = Inr v"
    using binomialOptionPricing_errors[OF v[of "0.2"]]
    by (auto simp: crr_u_eq_d_iff)
  from one two three show ?thesis by blast
qed

text \<open>
  C4. When the pricer returns a value for the american style and for the european style
  on otherwise identical parameters, the american value is at least the european one.
\<close>

theorem american_ge_european:
  assumes "binomialOptionPricing S K T r sigma n kind ''american'' q = Inr am"
    and "binomialOptionPricing S K T r sigma n kind ''european'' q = Inr eu"
  shows "eu \<le> am"
  using assms crr_value_mono[of r q sigma T n S K kind] by (simp add: bop_Inr_iff)

theorem american_ge_european_witness:
  "\<exists>am eu. binomialOptionPricing 100 100 1 0.05 0.2 200 ''put'' ''american'' 0.02 = Inr am
     \<and> binomialOptionPricing 100 100 1 0.05 0.2 200 ''put'' ''european'' 0.02 = Inr eu
     \<and> eu \<le> am"
proof -
  have ok: "\<exists>v. binomialOptionPricing 100 100 1 0.05 0.2 200 ''put'' style 0.02 = Inr v"
    if "style \<in> {''european'', ''american''}" for style
    unfolding bop_succeeds_iff
    using that defaults_arbitrage_free[of 200]
    by (simp add: validate_iff params_of_def isInteger_def)
  obtain am where am: "binomialOptionPricing 100 100 1 0.05 0.2 200 ''put'' ''american'' 0.02 = Inr am"
    using ok[of "''american''"] by auto
  obtain eu where eu: "binomialOptionPricing 100 100 1 0.05 0.2 200 ''put'' ''european'' 0.02 = Inr eu"
    using ok[of "''european''"] by auto
  from american_ge_european[OF am eu] am eu show ?thesis by blast
qed

subsection \<open>The convergence driver\<close>




text \<open>
  C6, as the code has it. The driver prices at \<open>nStart\<close>; the second call, at
  \<open>nStart + step\<close>, is behind the loop's guard \<open>n \<le> nMax\<close>. When \<open>nStart + step \<le> nMax\<close>
  a returned trail has at least two entries, the prices at \<open>nStart\<close> and at
  \<open>nStart + step\<close>, and no convergence check precedes them. When \<open>nStart + step > nMax\<close>
  the driver returns after the one call, with a trail of one entry, the price at \<open>nStart\<close>
  and \<open>n = nMax\<close>.
\<close>

theorem priceWithConvergence_guarded_second_call:
  assumes "priceWithConvergence a nStart nMax tol step = Some (Inr res)"
  shows "(nStart + step \<le> nMax \<longrightarrow>
            2 \<le> length (cr_trail res)
            \<and> fst (cr_trail res ! 0) = nStart \<and> price_n a nStart = Inr (snd (cr_trail res ! 0))
            \<and> fst (cr_trail res ! 1) = nStart + step
            \<and> price_n a (nStart + step) = Inr (snd (cr_trail res ! 1)))
       \<and> (nMax < nStart + step \<longrightarrow>
            (\<exists>v. price_n a nStart = Inr v
                \<and> res = \<lparr>cr_price = v, cr_n = nMax, cr_trail = [(nStart, v)]\<rparr>))"
proof -
  have first: "2 \<le> length (cr_trail res)
            \<and> fst (cr_trail res ! 0) = nStart \<and> price_n a nStart = Inr (snd (cr_trail res ! 0))
            \<and> fst (cr_trail res ! 1) = nStart + step
            \<and> price_n a (nStart + step) = Inr (snd (cr_trail res ! 1))"
    if le: "nStart + step \<le> nMax"
  proof -
  have post: "convergence_post a nStart nMax tol step res"
    using assms by (rule priceWithConvergence_post)
  have ne: "cr_trail res \<noteq> []" and ok: "trail_entries_ok a nStart step (cr_trail res)"
    using post by (simp_all add: convergence_post_def)
  have "length (cr_trail res) \<noteq> 1"
  proof
    assume one: "length (cr_trail res) = 1"
    with post have "nStart + real (length (cr_trail res)) * step > nMax"
      by (simp add: convergence_post_def)
    with one le show False by simp
  qed
  with ne have two: "2 \<le> length (cr_trail res)"
    by (cases "cr_trail res") (simp_all add: Suc_le_eq)
  have lt: "0 < length (cr_trail res)" "1 < length (cr_trail res)"
    using two ne by simp_all
  have "fst (cr_trail res ! 0) = nStart + real 0 * step
      \<and> price_n a (nStart + real 0 * step) = Inr (snd (cr_trail res ! 0))"
    using ok[unfolded trail_entries_ok_def, rule_format, OF lt(1)] .
  moreover have "fst (cr_trail res ! 1) = nStart + real 1 * step
      \<and> price_n a (nStart + real 1 * step) = Inr (snd (cr_trail res ! 1))"
    using ok[unfolded trail_entries_ok_def, rule_format, OF lt(2)] .
  ultimately show ?thesis
    using two by simp
  qed
  have second: "\<exists>v. price_n a nStart = Inr v
                \<and> res = \<lparr>cr_price = v, cr_n = nMax, cr_trail = [(nStart, v)]\<rparr>"
    if gt: "nMax < nStart + step"
  proof (cases "price_at a (pS a) (pT a) (psigma a) nStart")
    case (Inl e)
    with assms show ?thesis by (simp add: priceWithConvergence_def)
  next
    case (Inr prev)
    have "convergence_loop a nMax tol step (nStart + step) prev [(nStart, prev)]
        = Some (Inr \<lparr>cr_price = prev, cr_n = nMax, cr_trail = [(nStart, prev)]\<rparr>)"
      using gt by (subst convergence_loop.simps) simp
    with assms Inr show ?thesis
      by (simp add: priceWithConvergence_def price_n_def)
  qed
  from first second show ?thesis by blast
qed

theorem priceWithConvergence_guarded_second_call_witness:
  "priceWithConvergence resetDefaults 50 100 0.0001 50 =
     Some (Inr \<lparr>cr_price = crr_value 100 100 1 0.05 0.2 100 ''call'' ''european'' 0.02,
                 cr_n = 100,
                 cr_trail = [(50, crr_value 100 100 1 0.05 0.2 50 ''call'' ''european'' 0.02),
                             (100, crr_value 100 100 1 0.05 0.2 100 ''call'' ''european'' 0.02)]\<rparr>)
   \<and> price_n resetDefaults 50 = Inr (crr_value 100 100 1 0.05 0.2 50 ''call'' ''european'' 0.02)
   \<and> price_n resetDefaults (50 + 50)
       = Inr (crr_value 100 100 1 0.05 0.2 100 ''call'' ''european'' 0.02)
   \<and> priceWithConvergence resetDefaults 50 60 0.0001 50 =
       Some (Inr \<lparr>cr_price = crr_value 100 100 1 0.05 0.2 50 ''call'' ''european'' 0.02,
                   cr_n = 60,
                   cr_trail = [(50, crr_value 100 100 1 0.05 0.2 50 ''call'' ''european'' 0.02)]\<rparr>)"
  using priceWithConvergence_guarded_second_call[OF defaults_run_50_100[of "0.0001"]]
    priceWithConvergence_guarded_second_call[OF defaults_run_50_60[of "0.0001"]]
    defaults_run_50_100[of "0.0001"] defaults_run_50_60[of "0.0001"]
  by simp

text \<open>
  C6 as stated fails: with \<open>nStart = 50\<close>, \<open>step = 50\<close> and \<open>nMax = 60\<close> the form's
  defaults are priced once, and the trail has one entry.
\<close>

theorem priceWithConvergence_single_call_counterexample:
  "priceWithConvergence resetDefaults 50 60 0.0001 50 =
     Some (Inr \<lparr>cr_price = crr_value 100 100 1 0.05 0.2 50 ''call'' ''european'' 0.02,
                 cr_n = 60,
                 cr_trail = [(50, crr_value 100 100 1 0.05 0.2 50 ''call'' ''european'' 0.02)]\<rparr>)
   \<and> \<not> 2 \<le> length (cr_trail
         \<lparr>cr_price = crr_value 100 100 1 0.05 0.2 50 ''call'' ''european'' 0.02,
          cr_n = 60,
          cr_trail = [(50, crr_value 100 100 1 0.05 0.2 50 ''call'' ''european'' 0.02)]\<rparr>)"
  using defaults_run_50_60[of "0.0001"] by simp

subsection \<open>The Greeks estimator\<close>

text \<open>
  C9. When its five pricing calls return values, \<open>greeks\<close> returns the record of the base
  price and the three central differences: \<open>delta = (up - down) / (2 dS)\<close>,
  \<open>gamma = (up - 2 base + down) / dS\<^sup>2\<close> and \<open>theta = (upT - downT) / (2 dT)\<close>, where
  \<open>up\<close> and \<open>down\<close> are the prices at \<open>S + dS\<close> and \<open>S - dS\<close>, and \<open>upT\<close> and \<open>downT\<close>
  the prices at \<open>T + dT\<close> and \<open>max (T - dT) 1e-8\<close>. With no override the steps are
  \<open>dS = max (0.01 S) 1e-4\<close> and \<open>dT = max 1e-4 (0.001 T)\<close>, which are not zero. Every
  call is \<open>price_at\<close> on the same parameter object: the same strike, rate, dividend
  yield, kind and style, with the volatility and the step count of the object.
\<close>

theorem greeks_formulas:
  assumes "stepS = (case dS of Some v \<Rightarrow> v | None \<Rightarrow> max (0.01 * pS a) 0.0001)"
    and "stepT = (case dT of Some v \<Rightarrow> v | None \<Rightarrow> max 0.0001 (0.001 * pT a))"
    and "price_at a (pS a) (pT a) (psigma a) (pn a) = Inr base"
    and "price_at a (pS a + stepS) (pT a) (psigma a) (pn a) = Inr up"
    and "price_at a (pS a - stepS) (pT a) (psigma a) (pn a) = Inr down"
    and "price_at a (pS a) (pT a + stepT) (psigma a) (pn a) = Inr upT"
    and "price_at a (pS a) (max (pT a - stepT) 0.00000001) (psigma a) (pn a) = Inr downT"
  shows "greeks a dS dT =
           Inr \<lparr>g_price = base,
                g_delta = js_div (up - down) (2 * stepS),
                g_gamma = js_div (up - 2 * base + down) (stepS ^ 2),
                g_theta = js_div (upT - downT) (2 * stepT)\<rparr>
       \<and> (stepS \<noteq> 0 \<longrightarrow>
            js_div (up - down) (2 * stepS) = Some ((up - down) / (2 * stepS))
            \<and> js_div (up - 2 * base + down) (stepS ^ 2)
                = Some ((up - 2 * base + down) / stepS ^ 2))
       \<and> (stepT \<noteq> 0 \<longrightarrow>
            js_div (upT - downT) (2 * stepT) = Some ((upT - downT) / (2 * stepT)))
       \<and> (dS = None \<longrightarrow> stepS = max (0.01 * pS a) 0.0001 \<and> stepS \<noteq> 0)
       \<and> (dT = None \<longrightarrow> stepT = max 0.0001 (0.001 * pT a) \<and> stepT \<noteq> 0)"
proof -
  have run: "greeks a dS dT =
           Inr \<lparr>g_price = base,
                g_delta = js_div (up - down) (2 * stepS),
                g_gamma = js_div (up - 2 * base + down) (stepS ^ 2),
                g_theta = js_div (upT - downT) (2 * stepT)\<rparr>"
    unfolding greeks_def assms(1,2)[symmetric] Let_def using assms(3-7) by simp
  have "dS = None \<longrightarrow> stepS = max (0.01 * pS a) 0.0001 \<and> stepS \<noteq> 0"
    using assms(1) by (auto simp: max_def)
  moreover have "dT = None \<longrightarrow> stepT = max 0.0001 (0.001 * pT a) \<and> stepT \<noteq> 0"
    using assms(2) by (auto simp: max_def)
  ultimately show ?thesis
    using run by (auto simp: js_div_def)
qed

theorem greeks_formulas_witness:
  "greeks resetDefaults None None =
     Inr \<lparr>g_price = crr_value 100 100 1 0.05 0.2 200 ''call'' ''european'' 0.02,
          g_delta = Some ((crr_value 101 100 1 0.05 0.2 200 ''call'' ''european'' 0.02
                           - crr_value 99 100 1 0.05 0.2 200 ''call'' ''european'' 0.02) / 2),
          g_gamma = Some (crr_value 101 100 1 0.05 0.2 200 ''call'' ''european'' 0.02
                           - 2 * crr_value 100 100 1 0.05 0.2 200 ''call'' ''european'' 0.02
                           + crr_value 99 100 1 0.05 0.2 200 ''call'' ''european'' 0.02),
          g_theta = Some ((crr_value 100 100 1.001 0.05 0.2 200 ''call'' ''european'' 0.02
                           - crr_value 100 100 0.999 0.05 0.2 200 ''call'' ''european'' 0.02)
                          / 0.002)\<rparr>"
proof -
  have s: "(case None of Some v \<Rightarrow> v | None \<Rightarrow> max (0.01 * pS resetDefaults) 0.0001) = 1"
    "(case None of Some v \<Rightarrow> v | None \<Rightarrow> max 0.0001 (0.001 * pT resetDefaults)) = 0.001"
    by (simp_all add: resetDefaults_def)
  have f: "pS resetDefaults = 100" "pT resetDefaults = 1" "psigma resetDefaults = 0.2"
    "pn resetDefaults = 200"
    by (simp_all add: resetDefaults_def)
  show ?thesis
    using greeks_formulas[where a = resetDefaults and dS = None and dT = None and stepS = 1
          and stepT = "0.001", OF s(1)[symmetric] s(2)[symmetric],
        unfolded f,
        OF price_at_defaults[of 100 1] price_at_defaults[of "100 + 1" 1]
           price_at_defaults[of "100 - 1" 1] price_at_defaults[of 100 "1 + 0.001"]
           price_at_defaults[of 100 "max (1 - 0.001) 0.00000001"]]
    by (simp add: js_div_def)
qed

text \<open>
  C10. With \<open>0 < S \<le> 1e-4\<close> and no override of the spot step, \<open>greeks\<close> returns no
  record: the default step is \<open>1e-4\<close>, so the spot of the third call, \<open>S - 1e-4\<close>, is
  not positive. When the first call returns a value, so does the second, and the third
  raises the error of the validator's first rule, which \<open>greeks\<close> raises in turn.
\<close>

theorem greeks_small_spot_raises:
  assumes "0 < pS a" "pS a \<le> 0.0001"
  shows "(\<exists>e. greeks a None dT = Inl e)
       \<and> ((\<exists>base. price_at a (pS a) (pT a) (psigma a) (pn a) = Inr base) \<longrightarrow>
            max (0.01 * pS a) 0.0001 = 0.0001 \<and> pS a - 0.0001 \<le> 0
            \<and> (\<exists>up. price_at a (pS a + 0.0001) (pT a) (psigma a) (pn a) = Inr up)
            \<and> price_at a (pS a - 0.0001) (pT a) (psigma a) (pn a)
                = Inl (InvalidParameter ''S and K must be positive.'')
            \<and> greeks a None dT = Inl (InvalidParameter ''S and K must be positive.''))"
proof -
  have stepS: "max (0.01 * pS a) 0.0001 = 0.0001"
    using assms by (simp add: max_def)
  have down: "price_at a (pS a - 0.0001) (pT a) (psigma a) (pn a)
      = Inl (InvalidParameter ''S and K must be positive.'')"
    using assms(2)
    by (simp add: price_at_def binomialOptionPricing_def validateInputs_def)
  have first: "\<exists>e. greeks a None dT = Inl e"
    unfolding greeks_def Let_def using stepS down
    by (auto split: sum.splits)
  have second: "(\<exists>up. price_at a (pS a + 0.0001) (pT a) (psigma a) (pn a) = Inr up)
      \<and> greeks a None dT = Inl (InvalidParameter ''S and K must be positive.'')"
    if "price_at a (pS a) (pT a) (psigma a) (pn a) = Inr base" for base
  proof -
    from that have ok: "validateInputs a = Inr ()" "psigma a > 0"
      "\<bar>pr a - pq a\<bar> * crr_dt (pT a) (pn a) \<le> psigma a * sqrt (crr_dt (pT a) (pn a))"
      by (simp_all add: price_at_Inr_iff)
    have "validateInputs (a\<lparr>pS := pS a + 0.0001\<rparr>) = Inr ()"
      using ok(1) assms(1) by (simp add: validate_iff)
    then obtain up where up: "price_at a (pS a + 0.0001) (pT a) (psigma a) (pn a) = Inr up"
      using ok(2,3) by (simp add: price_at_Inr_iff)
    have "greeks a None dT = Inl (InvalidParameter ''S and K must be positive.'')"
      unfolding greeks_def Let_def using stepS down that up by simp
    with up show ?thesis by blast
  qed
  show ?thesis
    using first second stepS down assms(2) by auto
qed

theorem greeks_small_spot_raises_witness:
  "(\<exists>base. price_at (resetDefaults\<lparr>pS := 0.0001\<rparr>) 0.0001 1 0.2 200 = Inr base)
   \<and> greeks (resetDefaults\<lparr>pS := 0.0001\<rparr>) None None
       = Inl (InvalidParameter ''S and K must be positive.'')"
proof -
  have same: "price_at (resetDefaults\<lparr>pS := 0.0001\<rparr>) S T sig n = price_at resetDefaults S T sig n"
    for S T sig n
    by (simp add: price_at_def resetDefaults_def)
  have base: "\<exists>base. price_at (resetDefaults\<lparr>pS := 0.0001\<rparr>) 0.0001 1 0.2 200 = Inr base"
    unfolding same using price_at_defaults[of "0.0001" 1] by simp
  then have "\<exists>base. price_at (resetDefaults\<lparr>pS := 0.0001\<rparr>)
      (pS (resetDefaults\<lparr>pS := 0.0001\<rparr>)) (pT (resetDefaults\<lparr>pS := 0.0001\<rparr>))
      (psigma (resetDefaults\<lparr>pS := 0.0001\<rparr>)) (pn (resetDefaults\<lparr>pS := 0.0001\<rparr>)) = Inr base"
    by (simp add: resetDefaults_def)
  with greeks_small_spot_raises[of "resetDefaults\<lparr>pS := 0.0001\<rparr>" None] base
  show ?thesis by (simp add: resetDefaults_def)
qed

subsection \<open>The implied-volatility solver\<close>

text \<open>
  C7, as the code has it. \<open>impliedVolatility\<close> raises \<open>InvalidTarget\<close> exactly when
  the target is not positive, whatever the pricer would do. Otherwise it prices at the low
  bound and then at the high bound, and an error of either call is raised as it is. When
  both calls return values it raises \<open>NotBracketed\<close> exactly when the target is not within
  \<open>[price(low), price(high)]\<close>; when the target is bracketed it returns a volatility and
  raises nothing (every midpoint of the bisection is priced without error, because both
  bounds are), and when no round meets the tolerance the value returned is the midpoint of
  the interval after the last round.
\<close>

theorem impliedVolatility_outcomes:
  "(impliedVolatility mp a lo hi tol maxIter = Inl InvalidTarget \<longleftrightarrow> \<not> 0 < mp)
   \<and> (0 < mp \<longrightarrow>
        (\<forall>e. price_at a (pS a) (pT a) lo (pn a) = Inl e \<longrightarrow>
             impliedVolatility mp a lo hi tol maxIter = Inl e)
      \<and> (\<forall>pl e. price_at a (pS a) (pT a) lo (pn a) = Inr pl
                \<and> price_at a (pS a) (pT a) hi (pn a) = Inl e \<longrightarrow>
             impliedVolatility mp a lo hi tol maxIter = Inl e)
      \<and> (\<forall>pl ph. price_at a (pS a) (pT a) lo (pn a) = Inr pl
                \<and> price_at a (pS a) (pT a) hi (pn a) = Inr ph \<longrightarrow>
             (impliedVolatility mp a lo hi tol maxIter = Inl NotBracketed
                \<longleftrightarrow> \<not> (pl \<le> mp \<and> mp \<le> ph))
           \<and> (pl \<le> mp \<and> mp \<le> ph \<longrightarrow>
                (\<exists>v. impliedVolatility mp a lo hi tol maxIter = Inr v
                   \<and> ((\<forall>k<nat \<lceil>maxIter\<rceil>. \<not> iv_met a mp tol (iv_interval a mp lo hi k))
                       \<longrightarrow> v = iv_mid (iv_interval a mp lo hi (nat \<lceil>maxIter\<rceil>)))))))"
proof (cases "0 < mp")
  case False
  then show ?thesis by (simp add: impliedVolatility_def)
next
  case pos: True
  show ?thesis
  proof (cases "price_at a (pS a) (pT a) lo (pn a)")
    case (Inl e)
    then have "e \<noteq> InvalidTarget"
      using pricer_errors by (auto simp: price_at_def)
    with pos Inl show ?thesis by (simp add: impliedVolatility_def)
  next
    case low: (Inr pl)
    show ?thesis
    proof (cases "price_at a (pS a) (pT a) hi (pn a)")
      case (Inl e)
      then have "e \<noteq> InvalidTarget"
        using pricer_errors by (auto simp: price_at_def)
      with pos low Inl show ?thesis by (simp add: impliedVolatility_def)
    next
      case high: (Inr ph)
      show ?thesis
      proof (cases "pl \<le> mp \<and> mp \<le> ph")
        case False
        with pos low high show ?thesis by (auto simp: impliedVolatility_def)
      next
        case True
        then have run: "impliedVolatility mp a lo hi tol maxIter = iv_loop a mp tol maxIter 0 lo hi"
          using pos low high by (simp add: impliedVolatility_def)
        obtain v where v: "iv_loop a mp tol maxIter 0 lo hi = Inr v"
          using iv_loop_returns[of a lo hi mp tol maxIter 0] low high by blast
        have "v = iv_mid (iv_interval a mp lo hi (nat \<lceil>maxIter\<rceil>))"
          if none: "\<forall>k<nat \<lceil>maxIter\<rceil>. \<not> iv_met a mp tol (iv_interval a mp lo hi k)"
        proof -
          have "\<not> (\<exists>k. real (0 + k) < maxIter
              \<and> iv_met a mp tol ((iv_narrow a mp ^^ k) (lo, hi))
              \<and> v = iv_mid ((iv_narrow a mp ^^ k) (lo, hi)))"
            using none by (auto simp: iv_interval_def real_less_iff_nat_ceiling)
          with iv_loop_result[OF v] show ?thesis
            by (auto simp: iv_interval_def)
        qed
        with run v True pos low high show ?thesis by simp
      qed
    qed
  qed
qed

theorem impliedVolatility_outcomes_witness:
  "impliedVolatility 0 resetDefaults 0.000001 5 0.000001 100 = Inl InvalidTarget
   \<and> price_at deep_put (pS deep_put) (pT deep_put) 0.000001 (pn deep_put) = Inr 99
   \<and> price_at deep_put (pS deep_put) (pT deep_put) 5 (pn deep_put) = Inr 99
   \<and> (\<exists>v. impliedVolatility 99 deep_put 0.000001 5 0.000001 100 = Inr v)
   \<and> impliedVolatility 50 deep_put 0.000001 5 0.000001 100 = Inl NotBracketed"
  using impliedVolatility_outcomes[of 0 resetDefaults "0.000001" 5 "0.000001" 100]
    impliedVolatility_outcomes[of 99 deep_put "0.000001" 5 "0.000001" 100]
    impliedVolatility_outcomes[of 50 deep_put "0.000001" 5 "0.000001" 100]
    deep_put_price[of "0.000001"] deep_put_price[of 5]
  by auto

text \<open>
  C7 as stated fails: on the form's defaults with the default bounds and a target of
  \<open>10\<close>, the pricing call at the low bound \<open>1e-6\<close> raises \<open>ArbitrageViolation\<close>, and so
  does the solver: neither \<open>InvalidTarget\<close>, nor \<open>NotBracketed\<close>, nor a volatility.
\<close>

theorem impliedVolatility_pricer_error_counterexample:
  "impliedVolatility_default 10 resetDefaults
     = Inl (ArbitrageViolation (crr_p 0.05 0.02 0.000001 1 200))"
  using defaults_low_vol
  by (simp add: impliedVolatility_default_def impliedVolatility_def price_at_def resetDefaults_def)

text \<open>
  C8, as the code has it. Let the pricer return a price at every volatility between the
  bounds, strictly larger at a larger volatility, and let \<open>marketSigma\<close> lie strictly
  between the bounds. Then \<open>impliedVolatility\<close>, fed the price at \<open>marketSigma\<close>, returns
  a volatility \<open>v\<close>: the midpoint of the interval after some number \<open>k\<close> of rounds, an
  interval that still holds \<open>marketSigma\<close>, so that \<open>v\<close> is within
  \<open>(volHigh - volLow) / 2 ^ (k + 1)\<close> of \<open>marketSigma\<close>. The tolerance of the solver bounds
  the price, not the volatility: either round \<open>k\<close> met the tolerance, and then the price at
  \<open>v\<close> is within \<open>tol\<close> of the price at \<open>marketSigma\<close>, and \<open>v\<close> is \<open>marketSigma\<close> itself when
  \<open>tol = 0\<close>; or no round met it and \<open>k\<close> is the number of rounds allowed.
\<close>

theorem impliedVolatility_round_trip:
  assumes inc: "price_increasing a volLow volHigh"
    and inside: "volLow < marketSigma" "marketSigma < volHigh"
  shows "\<exists>target v k.
      price_at a (pS a) (pT a) marketSigma (pn a) = Inr target
    \<and> impliedVolatility target a volLow volHigh tol maxIter = Inr v
    \<and> k \<le> nat \<lceil>maxIter\<rceil>
    \<and> v = iv_mid (iv_interval a target volLow volHigh k)
    \<and> fst (iv_interval a target volLow volHigh k) \<le> marketSigma
    \<and> marketSigma \<le> snd (iv_interval a target volLow volHigh k)
    \<and> \<bar>v - marketSigma\<bar> \<le> (volHigh - volLow) / 2 ^ (k + 1)
    \<and> ((k < nat \<lceil>maxIter\<rceil>
          \<and> (\<exists>pv. price_at a (pS a) (pT a) v (pn a) = Inr pv \<and> \<bar>pv - target\<bar> \<le> tol
                 \<and> (tol = 0 \<longrightarrow> v = marketSigma)))
        \<or> (k = nat \<lceil>maxIter\<rceil>
          \<and> (\<forall>j<nat \<lceil>maxIter\<rceil>. \<not> iv_met a target tol (iv_interval a target volLow volHigh j))))"
proof -
  obtain pl target where pl: "price_at a (pS a) (pT a) volLow (pn a) = Inr pl"
    and target: "price_at a (pS a) (pT a) marketSigma (pn a) = Inr target"
    and lt1: "pl < target"
    using price_increasingD[OF inc _ inside(1)] inside(2) by auto
  obtain ph where ph: "price_at a (pS a) (pT a) volHigh (pn a) = Inr ph" and lt2: "target < ph"
    using price_increasingD[OF inc _ inside(2)] inside(1) target by auto
  have pos: "0 < target"
    using price_at_nonneg[OF pl] lt1 by simp
  have run: "impliedVolatility target a volLow volHigh tol maxIter
      = iv_loop a target tol maxIter 0 volLow volHigh"
    using pos pl ph lt1 lt2 by (simp add: impliedVolatility_def)
  obtain v where v: "iv_loop a target tol maxIter 0 volLow volHigh = Inr v"
    using iv_loop_returns[of a volLow volHigh target tol maxIter 0] pl ph by blast
  have lohi: "volLow \<le> marketSigma" "marketSigma \<le> volHigh" "volLow < volHigh"
    using inside by simp_all
  note keeps = iv_interval_keeps[OF inc target lohi]
  have near: "\<bar>iv_mid (iv_interval a target volLow volHigh k) - marketSigma\<bar>
      \<le> (volHigh - volLow) / 2 ^ (k + 1)" for k
  proof -
    have "\<bar>iv_mid (iv_interval a target volLow volHigh k) - marketSigma\<bar>
        \<le> (snd (iv_interval a target volLow volHigh k)
            - fst (iv_interval a target volLow volHigh k)) / 2"
      using keeps[of k] by (intro iv_mid_near) simp_all
    also have "\<dots> = (volHigh - volLow) / 2 ^ (k + 1)"
      using keeps[of k] by simp
    finally show ?thesis .
  qed
  from iv_loop_result[OF v] consider
    (met) k where "real k < maxIter"
      "iv_met a target tol (iv_interval a target volLow volHigh k)"
      "v = iv_mid (iv_interval a target volLow volHigh k)"
    | (cap) "\<forall>k. real k < maxIter \<longrightarrow> \<not> iv_met a target tol (iv_interval a target volLow volHigh k)"
      "v = iv_mid (iv_interval a target volLow volHigh (nat \<lceil>maxIter\<rceil>))"
    by (auto simp: iv_interval_def)
  then show ?thesis
  proof cases
    case met
    have k: "k < nat \<lceil>maxIter\<rceil>"
      using met(1) by (simp add: real_less_iff_nat_ceiling)
    obtain pv where pv: "price_at a (pS a) (pT a) v (pn a) = Inr pv" "\<bar>pv - target\<bar> \<le> tol"
      using met(2,3) by (auto simp: iv_met_def split: sum.splits)
    have vin: "volLow \<le> v" "v \<le> volHigh"
      using keeps[of k] by (simp_all add: met(3) iv_mid_def)
    have exact: "v = marketSigma" if "tol = 0"
    proof (rule ccontr)
      assume ne: "v \<noteq> marketSigma"
      from that pv(2) have eq: "pv = target" by simp
      show False
      proof (cases "v < marketSigma")
        case True
        from price_increasingD[OF inc vin(1) True lohi(2)] pv(1) target eq
        show False by simp
      next
        case False
        with ne have "marketSigma < v" by simp
        from price_increasingD[OF inc lohi(1) this vin(2)] pv(1) target eq
        show False by simp
      qed
    qed
    have "price_at a (pS a) (pT a) marketSigma (pn a) = Inr target
      \<and> impliedVolatility target a volLow volHigh tol maxIter = Inr v
      \<and> k \<le> nat \<lceil>maxIter\<rceil>
      \<and> v = iv_mid (iv_interval a target volLow volHigh k)
      \<and> fst (iv_interval a target volLow volHigh k) \<le> marketSigma
      \<and> marketSigma \<le> snd (iv_interval a target volLow volHigh k)
      \<and> \<bar>v - marketSigma\<bar> \<le> (volHigh - volLow) / 2 ^ (k + 1)
      \<and> ((k < nat \<lceil>maxIter\<rceil>
            \<and> (\<exists>pv. price_at a (pS a) (pT a) v (pn a) = Inr pv \<and> \<bar>pv - target\<bar> \<le> tol
                   \<and> (tol = 0 \<longrightarrow> v = marketSigma)))
          \<or> (k = nat \<lceil>maxIter\<rceil>
            \<and> (\<forall>j<nat \<lceil>maxIter\<rceil>. \<not> iv_met a target tol (iv_interval a target volLow volHigh j))))"
      using target run v k met(3) keeps[of k] near[of k] pv exact by auto
    then show ?thesis by blast
  next
    case cap
    define k where "k = nat \<lceil>maxIter\<rceil>"
    have none: "\<forall>j<nat \<lceil>maxIter\<rceil>. \<not> iv_met a target tol (iv_interval a target volLow volHigh j)"
      using cap(1) by (simp add: real_less_iff_nat_ceiling)
    have "price_at a (pS a) (pT a) marketSigma (pn a) = Inr target
      \<and> impliedVolatility target a volLow volHigh tol maxIter = Inr v
      \<and> k \<le> nat \<lceil>maxIter\<rceil>
      \<and> v = iv_mid (iv_interval a target volLow volHigh k)
      \<and> fst (iv_interval a target volLow volHigh k) \<le> marketSigma
      \<and> marketSigma \<le> snd (iv_interval a target volLow volHigh k)
      \<and> \<bar>v - marketSigma\<bar> \<le> (volHigh - volLow) / 2 ^ (k + 1)
      \<and> ((k < nat \<lceil>maxIter\<rceil>
            \<and> (\<exists>pv. price_at a (pS a) (pT a) v (pn a) = Inr pv \<and> \<bar>pv - target\<bar> \<le> tol
                   \<and> (tol = 0 \<longrightarrow> v = marketSigma)))
          \<or> (k = nat \<lceil>maxIter\<rceil>
            \<and> (\<forall>j<nat \<lceil>maxIter\<rceil>. \<not> iv_met a target tol (iv_interval a target volLow volHigh j))))"
      using target run v cap(2) keeps[of k] near[of k] none by (simp add: k_def)
    then show ?thesis by blast
  qed
qed

theorem impliedVolatility_round_trip_witness:
  "price_increasing atm_call 0.1 0.5 \<and> (0.1 :: real) < 0.2 \<and> (0.2 :: real) < 0.5
   \<and> price_at atm_call (pS atm_call) (pT atm_call) 0.2 (pn atm_call)
       = Inr (100 * (exp 0.2 - 1) / (exp 0.2 + 1))
   \<and> iv_interval atm_call (100 * (exp 0.2 - 1) / (exp 0.2 + 1)) 0.1 0.5 1 = (0.1, 0.3)
   \<and> impliedVolatility (100 * (exp 0.2 - 1) / (exp 0.2 + 1)) atm_call 0.1 0.5 0 100 = Inr 0.2"
proof -
  let ?t = "100 * (exp 0.2 - 1) / (exp 0.2 + 1) :: real"
  have inc: "price_increasing atm_call 0.1 0.5"
    by (rule atm_call_increasing) simp
  have p2: "price_at atm_call (pS atm_call) (pT atm_call) 0.2 (pn atm_call) = Inr ?t"
    by (rule atm_call_price) simp
  obtain p3 where p3: "price_at atm_call (pS atm_call) (pT atm_call) 0.3 (pn atm_call) = Inr p3"
    and lt: "?t < p3"
    using price_increasingD[OF inc, of "0.2" "0.3"] p2 by auto
  have narrow: "iv_interval atm_call ?t 0.1 0.5 1 = (0.1, 0.3)"
    using p3 lt by (simp add: iv_interval_def iv_narrow_def iv_mid_def)
  have met: "iv_met atm_call ?t 0 (iv_interval atm_call ?t 0.1 0.5 1)"
    unfolding narrow using p2 by (simp add: iv_met_def iv_mid_def)
  have "\<exists>target v k.
      price_at atm_call (pS atm_call) (pT atm_call) 0.2 (pn atm_call) = Inr target
    \<and> impliedVolatility target atm_call 0.1 0.5 0 100 = Inr v
    \<and> k \<le> nat \<lceil>100 :: real\<rceil>
    \<and> v = iv_mid (iv_interval atm_call target 0.1 0.5 k)
    \<and> fst (iv_interval atm_call target 0.1 0.5 k) \<le> 0.2
    \<and> 0.2 \<le> snd (iv_interval atm_call target 0.1 0.5 k)
    \<and> \<bar>v - 0.2\<bar> \<le> (0.5 - 0.1) / 2 ^ (k + 1)
    \<and> ((k < nat \<lceil>100 :: real\<rceil>
          \<and> (\<exists>pv. price_at atm_call (pS atm_call) (pT atm_call) v (pn atm_call) = Inr pv
                 \<and> \<bar>pv - target\<bar> \<le> 0
                 \<and> ((0 :: real) = 0 \<longrightarrow> v = 0.2)))
        \<or> (k = nat \<lceil>100 :: real\<rceil>
          \<and> (\<forall>j<nat \<lceil>100 :: real\<rceil>.
                \<not> iv_met atm_call target 0 (iv_interval atm_call target 0.1 0.5 j))))"
    by (rule impliedVolatility_round_trip[OF inc]) simp_all
  then obtain target v k where target: "price_at atm_call (pS atm_call) (pT atm_call) 0.2 (pn atm_call) = Inr target"
    and v: "impliedVolatility target atm_call 0.1 0.5 0 100 = Inr v"
    and alt: "(k < nat \<lceil>100 :: real\<rceil> \<and> v = 0.2)
        \<or> (\<forall>j<nat \<lceil>100 :: real\<rceil>.
                \<not> iv_met atm_call target 0 (iv_interval atm_call target 0.1 0.5 j))"
    by blast
  have t: "target = ?t" using target p2 by simp
  have "v = 0.2"
    using alt
  proof
    assume "k < nat \<lceil>100 :: real\<rceil> \<and> v = 0.2"
    then show ?thesis by simp
  next
    assume "\<forall>j<nat \<lceil>100 :: real\<rceil>.
                \<not> iv_met atm_call target 0 (iv_interval atm_call target 0.1 0.5 j)"
    then have "\<not> iv_met atm_call target 0 (iv_interval atm_call target 0.1 0.5 1)"
      by simp
    then show ?thesis using met t by simp
  qed
  then have iv: "impliedVolatility ?t atm_call 0.1 0.5 0 100 = Inr 0.2"
    using v t by simp
  from inc p2 narrow iv show ?thesis by simp
qed

text \<open>
  C8 as stated fails, in three ways. The price of \<open>deep_put\<close> is \<open>99\<close> at its volatility
  \<open>0.2\<close> and at every other one, and the solver, fed \<open>99\<close> with the default bounds, returns
  the first midpoint \<open>2.5000005\<close>. On the form's defaults, whose price at their volatility
  \<open>0.2\<close> is a positive value, the solver with the default bounds raises
  \<open>ArbitrageViolation\<close>, because the pricer does at the low bound \<open>1e-6\<close>. And the price of
  \<open>unit_call\<close> grows with the volatility, but by less than the volatility does: fed the
  price at \<open>0.2999985\<close> with the bounds \<open>0.1\<close> and \<open>0.5\<close> and the default tolerance \<open>1e-6\<close>,
  the solver returns the first midpoint \<open>0.3\<close>, which is \<open>1.5e-6\<close> away.
\<close>

theorem impliedVolatility_round_trip_counterexample:
  "psigma deep_put = 0.2
   \<and> price_at deep_put (pS deep_put) (pT deep_put) 0.2 (pn deep_put) = Inr 99
   \<and> impliedVolatility_default 99 deep_put = Inr 2.5000005
   \<and> \<not> \<bar>2.5000005 - 0.2\<bar> \<le> (0.000001 :: real)
   \<and> psigma resetDefaults = 0.2
   \<and> price_at resetDefaults (pS resetDefaults) (pT resetDefaults) 0.2 (pn resetDefaults)
       = Inr (crr_value 100 100 1 0.05 0.2 200 ''call'' ''european'' 0.02)
   \<and> impliedVolatility_default (crr_value 100 100 1 0.05 0.2 200 ''call'' ''european'' 0.02)
        resetDefaults
       = Inl (ArbitrageViolation (crr_p 0.05 0.02 0.000001 1 200))
   \<and> price_at unit_call (pS unit_call) (pT unit_call) 0.2999985 (pn unit_call)
       = Inr ((exp 0.2999985 - 1) / (exp 0.2999985 + 1))
   \<and> impliedVolatility ((exp 0.2999985 - 1) / (exp 0.2999985 + 1)) unit_call
        0.1 0.5 0.000001 100 = Inr 0.3
   \<and> (0.1 :: real) < 0.2999985 \<and> (0.2999985 :: real) < 0.5
   \<and> \<not> \<bar>0.3 - 0.2999985\<bar> \<le> (0.000001 :: real)"
proof -
  have flat: "psigma deep_put = 0.2
     \<and> price_at deep_put (pS deep_put) (pT deep_put) 0.2 (pn deep_put) = Inr 99
     \<and> impliedVolatility_default 99 deep_put = Inr 2.5000005
     \<and> \<not> \<bar>2.5000005 - 0.2\<bar> \<le> (0.000001 :: real)"
    using deep_put_price[of "0.2"] deep_put_implied
    by (simp add: deep_put_def)
  have sig: "psigma resetDefaults = 0.2" by (simp add: resetDefaults_def)
  have unit: "price_at unit_call (pS unit_call) (pT unit_call) 0.2999985 (pn unit_call)
       = Inr ((exp 0.2999985 - 1) / (exp 0.2999985 + 1))"
    by (rule unit_call_price) simp
  have far: "(0.1 :: real) < 0.2999985 \<and> (0.2999985 :: real) < 0.5
     \<and> \<not> \<bar>0.3 - 0.2999985\<bar> \<le> (0.000001 :: real)"
    by simp
  from flat sig defaults_round_trip unit unit_call_implied far show ?thesis
    by (intro conjI) (elim conjE, assumption)+
qed


end
